theory Spec2Isabelle
  imports Main
begin

section \<open>Transducers as relations between strings\<close>

text \<open>
  The three source files build finite-state transducers with the pynini combinators.
  A transducer is modelled by what it computes: the set of output strings it relates
  to an input string. A string is a list of bytes, as in pynini's default byte mode.
  An acceptor is a transducer that returns its input, or nothing.
\<close>

type_synonym transducer = "string \<Rightarrow> string set"

text \<open>\<^verbatim>\<open>pynini.accep(s)\<close>; a Python string used as a transducer is this one.\<close>

definition accep :: "string \<Rightarrow> transducer" where
  "accep s w = (if w = s then {s} else {})"

text \<open>\<^verbatim>\<open>pynini.cross(f, t)\<close>: every input that \<open>f\<close> accepts is sent to the string \<open>t\<close>.\<close>

definition cross :: "transducer \<Rightarrow> string \<Rightarrow> transducer" where
  "cross f t w = (if f w = {} then {} else {t})"

text \<open>\<^verbatim>\<open>pynutil.insert(t)\<close> and \<^verbatim>\<open>pynutil.delete(f)\<close>.\<close>

definition pynutil_insert :: "string \<Rightarrow> transducer" where
  "pynutil_insert t = cross (accep []) t"

definition pynutil_delete :: "transducer \<Rightarrow> transducer" where
  "pynutil_delete f = cross f []"

text \<open>\<^verbatim>\<open>f | g\<close>, \<^verbatim>\<open>pynini.union(f, g)\<close>.\<close>

definition fst_union :: "transducer \<Rightarrow> transducer \<Rightarrow> transducer" where
  "fst_union f g w = f w \<union> g w"

text \<open>\<^verbatim>\<open>f + g\<close>: the input is cut in two, \<open>f\<close> reads the first part and \<open>g\<close> the second.\<close>

definition fst_concat :: "transducer \<Rightarrow> transducer \<Rightarrow> transducer" where
  "fst_concat f g w =
     (\<Union>k\<in>set [0..<Suc (length w)]. \<Union>x\<in>f (take k w). (@) x ` g (drop k w))"

text \<open>\<^verbatim>\<open>f @ g\<close>: the outputs of \<open>f\<close> are the inputs of \<open>g\<close>.\<close>

definition compose :: "transducer \<Rightarrow> transducer \<Rightarrow> transducer" where
  "compose f g w = (\<Union>y\<in>f w. g y)"

text \<open>\<^verbatim>\<open>pynini.difference(f, g)\<close>, on acceptors.\<close>

definition difference :: "transducer \<Rightarrow> transducer \<Rightarrow> transducer" where
  "difference f g w = (if g w = {} then f w else {})"

text \<open>\<^verbatim>\<open>pynini.closure(f, 0, 1)\<close>: \<open>f\<close> or nothing.\<close>

definition closure01 :: "transducer \<Rightarrow> transducer" where
  "closure01 f = fst_union (accep []) f"

text \<open>
  A class of single characters (\<^verbatim>\<open>NEMO_CHAR\<close>, \<^verbatim>\<open>NEMO_NOT_QUOTE\<close>, ...) is a predicate on
  characters; \<open>char_class\<close> is its acceptor and \<open>closure_from n P\<close> is
  \<^verbatim>\<open>pynini.closure(P, n)\<close>, at least \<open>n\<close> characters of the class. The sources apply the
  unbounded closure to character classes only.
\<close>

definition char_class :: "(char \<Rightarrow> bool) \<Rightarrow> transducer" where
  "char_class P w = (case w of [c] \<Rightarrow> (if P c then {w} else {}) | _ \<Rightarrow> {})"

definition closure_from :: "nat \<Rightarrow> (char \<Rightarrow> bool) \<Rightarrow> transducer" where
  "closure_from n P w = (if n \<le> length w \<and> list_all P w then {w} else {})"

text \<open>\<^verbatim>\<open>pynini.string_map(pairs)\<close>: the union of the crosses of the pairs.\<close>

definition string_map :: "(string \<times> string) list \<Rightarrow> transducer" where
  "string_map ps w = set (map snd (filter (\<lambda>p. fst p = w) ps))"

subsection \<open>Context-dependent rewriting\<close>

text \<open>
  \<^verbatim>\<open>pynini.cdrewrite(tau, l, r, NEMO_SIGMA)\<close> with its defaults: obligatory, left to right.
  The input is scanned from the left. Where some piece of the input starting at the
  current position is in the domain of \<open>tau\<close>, stands after the left context and
  before the right context, one such piece is replaced by an output of \<open>tau\<close> and the
  scan goes on behind it; where there is none, the character is copied. A piece has at
  least one character: the only rule of the sources whose left side contains the empty
  string is a deletion of blanks, and deleting no blank changes nothing.

  A context is a predicate: the left one on the input before the position, the right
  one on the input behind the piece. \<open>lctx\<close> and \<open>rctx\<close> turn an acceptor into the
  context "ends with" and "starts with"; \<open>lctx_bos\<close> and \<open>rctx_eos\<close> are the
  markers \<^verbatim>\<open>[BOS]\<close> and \<^verbatim>\<open>[EOS]\<close>; \<open>lctx_bos_or a b\<close> is the left context
  \<^verbatim>\<open>union(a, "[BOS]") + b\<close>.
\<close>

definition lctx :: "transducer \<Rightarrow> string \<Rightarrow> bool" where
  "lctx lam l = (\<exists>k\<in>set [0..<Suc (length l)]. lam (drop k l) \<noteq> {})"

definition rctx :: "transducer \<Rightarrow> string \<Rightarrow> bool" where
  "rctx rho r = (\<exists>k\<in>set [0..<Suc (length r)]. rho (take k r) \<noteq> {})"

definition lctx_bos :: "string \<Rightarrow> bool" where
  "lctx_bos l = (l = [])"

definition rctx_eos :: "string \<Rightarrow> bool" where
  "rctx_eos r = (r = [])"

definition lctx_bos_or :: "transducer \<Rightarrow> transducer \<Rightarrow> string \<Rightarrow> bool" where
  "lctx_bos_or a b l =
     (\<exists>k\<in>set [0..<Suc (length l)]. b (drop k l) \<noteq> {} \<and>
        (k = 0 \<or> (\<exists>j\<in>set [0..<Suc k]. a (drop j (take k l)) \<noteq> {})))"

text \<open>
  The lengths \<open>k\<close> such that the piece \<open>c # take k cs\<close> can be rewritten at the position
  that has \<open>l\<close> before it and \<open>c # cs\<close> from it on.
\<close>

definition matches ::
  "transducer \<Rightarrow> (string \<Rightarrow> bool) \<Rightarrow> (string \<Rightarrow> bool) \<Rightarrow> string \<Rightarrow> char \<Rightarrow> string \<Rightarrow> nat list" where
  "matches tau lc rc l c cs =
     filter (\<lambda>k. lc l \<and> rc (drop k cs) \<and> tau (c # take k cs) \<noteq> {}) [0..<Suc (length cs)]"

fun rewrite_from ::
  "transducer \<Rightarrow> (string \<Rightarrow> bool) \<Rightarrow> (string \<Rightarrow> bool) \<Rightarrow> string \<Rightarrow> string \<Rightarrow> string set" where
  "rewrite_from tau lc rc l [] = {[]}"
| "rewrite_from tau lc rc l (c # cs) =
     (if matches tau lc rc l c cs = [] then (#) c ` rewrite_from tau lc rc (l @ [c]) cs
      else (\<Union>k\<in>set (matches tau lc rc l c cs). \<Union>x\<in>tau (c # take k cs).
              (@) x ` rewrite_from tau lc rc (l @ c # take k cs) (drop k cs)))"

definition cdrewrite :: "transducer \<Rightarrow> (string \<Rightarrow> bool) \<Rightarrow> (string \<Rightarrow> bool) \<Rightarrow> transducer" where
  "cdrewrite tau lc rc w = rewrite_from tau lc rc [] w"

section \<open>The shared graph utilities\<close>

text \<open>
  Modelled from the spec: the modules \<^verbatim>\<open>en/graph_utils.py\<close> and \<^verbatim>\<open>it/graph_utils.py\<close>,
  which the three source files import, are not among the sources. The character classes
  and the blank handling are what their names and the spec say: a quote delimits a
  field, \<^verbatim>\<open>NEMO_SPACE\<close> is one blank, \<^verbatim>\<open>delete_space\<close> deletes a run of blanks,
  \<^verbatim>\<open>insert_space\<close> inserts one, \<^verbatim>\<open>delete_extra_space\<close> turns a run of at least one
  blank into one ("joined by at least one space").
\<close>

definition NEMO_CHAR :: "char \<Rightarrow> bool" where
  "NEMO_CHAR c = True"

definition NEMO_NOT_QUOTE :: "char \<Rightarrow> bool" where
  "NEMO_NOT_QUOTE c = (c \<noteq> CHR 0x22)"

definition NEMO_WHITE_SPACE :: "char \<Rightarrow> bool" where
  "NEMO_WHITE_SPACE c = (c = CHR '' '' \<or> c = CHR 0x09 \<or> c = CHR 0x0A \<or> c = CHR 0x0D)"

definition NEMO_NOT_SPACE :: "char \<Rightarrow> bool" where
  "NEMO_NOT_SPACE c = (\<not> NEMO_WHITE_SPACE c)"

definition NEMO_SPACE :: transducer where
  "NEMO_SPACE = accep '' ''"

definition delete_space :: transducer where
  "delete_space = pynutil_delete (closure_from 0 NEMO_WHITE_SPACE)"

definition insert_space :: transducer where
  "insert_space = pynutil_insert '' ''"

definition delete_extra_space :: transducer where
  "delete_extra_space = cross (closure_from 1 NEMO_WHITE_SPACE) '' ''"

text \<open>
  Modelled from the spec: \<^verbatim>\<open>strip_accent\<close>, \<^verbatim>\<open>strip_cardinal_apocope\<close> and
  \<^verbatim>\<open>shift_cardinal_gender\<close> of \<^verbatim>\<open>it/graph_utils.py\<close>, not among the sources. The spec
  (4.1): each takes a transducer \<open>g\<close> and returns \<open>g\<close> "with the rewrite composed in".
  The rewrite itself is not in the sources, so it is a parameter: whatever is proved
  holds for every rewrite, or names what it needs of it.
\<close>

definition strip_accent :: "transducer \<Rightarrow> transducer \<Rightarrow> transducer" where
  "strip_accent accent_rewrite g = compose g accent_rewrite"

definition strip_cardinal_apocope :: "transducer \<Rightarrow> transducer \<Rightarrow> transducer" where
  "strip_cardinal_apocope apocope_rewrite g = compose g apocope_rewrite"

definition shift_cardinal_gender :: "transducer \<Rightarrow> transducer \<Rightarrow> transducer" where
  "shift_cardinal_gender gender_rewrite g = compose g gender_rewrite"

text \<open>
  Modelled from the spec: the rewrite that \<^verbatim>\<open>strip_cardinal_apocope\<close> composes in
  (\<^verbatim>\<open>it/graph_utils.py\<close>, not among the sources). The spec (4.1): a contextual rewrite
  that deletes a word-final vowel from specific cardinal spellings ("uno" to "un",
  "ventuno" to "ventun") when the cardinal is used before a continuation. Which
  spellings, and what counts as a continuation, the spec leaves open: \<open>spellings\<close> pairs
  each spelling with its trimmed form and \<open>continuation\<close> is the right context. A
  continuation is something that follows the cardinal, so the end of the string is none.
\<close>

definition apocope_before :: "(string \<times> string) list \<Rightarrow> (string \<Rightarrow> bool) \<Rightarrow> transducer" where
  "apocope_before spellings continuation =
     cdrewrite (string_map spellings) (lctx (accep [])) (\<lambda>r. r \<noteq> [] \<and> continuation r)"

section \<open>The ordinal tagger (taggers/ordinal.py)\<close>

text \<open>
  The five module-level transducers \<^verbatim>\<open>digit\<close>, \<^verbatim>\<open>teens\<close>, \<^verbatim>\<open>twenties\<close>, \<^verbatim>\<open>ties\<close> and
  \<^verbatim>\<open>hundreds\<close> are read from data files, which are not among the sources; each maps the
  cardinal spelling of a number to its ordinal spelling. They are the fields of a record,
  a parameter of everything below. So are the cardinal grammar (the constructor's
  argument \<open>cardinal\<close>) and the rewrite of \<open>strip_accent\<close>. \<^verbatim>\<open>optimize()\<close> changes no
  input or output and is left out.
\<close>

record lexicon =
  graph_digit :: transducer
  graph_teens :: transducer
  graph_ties :: transducer
  graph_twenties :: transducer
  graph_hundreds :: transducer

text \<open>Python's \<^verbatim>\<open>str\<close> on a natural number: its decimal digits.\<close>

fun str :: "nat \<Rightarrow> string" where
  "str n = (if n < 10 then [char_of (48 + n)] else str (n div 10) @ [char_of (48 + n mod 10)])"

text \<open>
  \<open>get_one_to_one_thousand\<close>: the output side of the cardinal grammar restricted to the
  inputs \<^verbatim>\<open>str(1)\<close>, ..., \<^verbatim>\<open>str(999)\<close>, as an acceptor.
\<close>

definition get_one_to_one_thousand :: "transducer \<Rightarrow> transducer" where
  "get_one_to_one_thousand cardinal w =
     (if \<exists>n\<in>set [1..<1000]. w \<in> cardinal (str n) then {w} else {})"

definition graph_tens_component :: "lexicon \<Rightarrow> transducer" where
  "graph_tens_component L =
     fst_union
       (fst_union (graph_teens L) (fst_concat (graph_ties L) (closure01 (graph_digit L))))
       (graph_twenties L)"

definition graph_hundred_component :: "lexicon \<Rightarrow> transducer" where
  "graph_hundred_component L =
     fst_union
       (fst_union
          (fst_concat (graph_hundreds L)
             (closure01 (fst_concat NEMO_SPACE
                (fst_union (graph_tens_component L) (graph_digit L)))))
          (graph_tens_component L))
       (graph_digit L)"

definition thousands :: transducer where
  "thousands = cross (accep ''mille'') ''millesimo''"

text \<open>
  \<open>graph_thousands\<close> is bound five times in the constructor: lines 89 to 91
  (\<open>graph_thousands_0\<close>), line 92 (\<open>graph_thousands_1\<close>), line 93 (\<open>graph_thousands_2\<close>),
  lines 97 to 100 (\<open>graph_thousands_3\<close>) and line 102 (\<open>graph_thousands\<close>).
\<close>

definition graph_thousands_0 :: "transducer \<Rightarrow> transducer \<Rightarrow> transducer" where
  "graph_thousands_0 accent_rewrite cardinal =
     fst_concat
       (fst_concat (strip_accent accent_rewrite (get_one_to_one_thousand cardinal)) NEMO_SPACE)
       thousands"

definition merge_as_prefix :: transducer where
  "merge_as_prefix = cdrewrite delete_space (lctx (accep [])) (rctx (accep ''millesimo''))"

definition graph_thousands_1 :: "transducer \<Rightarrow> transducer \<Rightarrow> transducer" where
  "graph_thousands_1 accent_rewrite cardinal =
     compose (graph_thousands_0 accent_rewrite cardinal) merge_as_prefix"

definition graph_thousands_2 :: "transducer \<Rightarrow> transducer \<Rightarrow> transducer" where
  "graph_thousands_2 accent_rewrite cardinal =
     fst_union (graph_thousands_1 accent_rewrite cardinal) thousands"

definition multiples_of_thousand :: "transducer \<Rightarrow> transducer \<Rightarrow> transducer" where
  "multiples_of_thousand accent_rewrite cardinal =
     compose cardinal (graph_thousands_2 accent_rewrite cardinal)"

definition graph_thousands_3 ::
  "bool \<Rightarrow> lexicon \<Rightarrow> transducer \<Rightarrow> transducer \<Rightarrow> transducer" where
  "graph_thousands_3 deterministic L accent_rewrite cardinal =
     (if \<not> deterministic
      then fst_union (graph_thousands_2 accent_rewrite cardinal)
             (fst_concat
                (fst_concat
                   (compose (get_one_to_one_thousand cardinal) (graph_hundred_component L))
                   NEMO_SPACE)
                thousands)
      else graph_thousands_2 accent_rewrite cardinal)"








section \<open>The date verbalizer (verbalizers/date.py)\<close>

text \<open>
  \<open>DateFst.__init__\<close>, line by line. \<open>deterministic\<close> is the constructor's flag and
  \<open>apocope\<close> the rewrite of \<open>strip_cardinal_apocope\<close>.
\<close>

definition day_cardinal :: transducer where
  \<open>day_cardinal =
     fst_concat
       (fst_concat (pynutil_delete (accep ''day: "'')) (closure_from 1 NEMO_NOT_QUOTE))
       (pynutil_delete (accep ''"''))\<close>

definition primero :: transducer where
  "primero = cdrewrite (cross (accep ''uno'') ''primo'') lctx_bos rctx_eos"

definition day :: "bool \<Rightarrow> transducer \<Rightarrow> transducer" where
  "day deterministic apocope =
     (if deterministic
      then compose (strip_cardinal_apocope apocope day_cardinal) primero
      else fst_union (strip_cardinal_apocope apocope day_cardinal)
             (compose (strip_cardinal_apocope apocope day_cardinal) primero))"

definition month :: transducer where
  \<open>month =
     fst_concat
       (fst_concat
         (fst_concat (fst_concat (pynutil_delete (accep ''month:'')) delete_space)
           (pynutil_delete (accep ''"'')))
         (closure_from 1 NEMO_NOT_QUOTE))
       (pynutil_delete (accep ''"''))\<close>

definition year :: transducer where
  \<open>year =
     fst_concat
       (fst_concat
         (fst_concat
           (fst_concat (fst_concat (pynutil_delete (accep ''year:'')) delete_space)
             (pynutil_delete (accep ''"'')))
           (closure_from 1 NEMO_NOT_QUOTE))
         delete_space)
       (pynutil_delete (accep ''"''))\<close>

definition graph_dmy :: "bool \<Rightarrow> transducer \<Rightarrow> transducer" where
  "graph_dmy deterministic apocope =
     fst_concat
       (fst_concat (day deterministic apocope) (closure01 (fst_concat delete_extra_space month)))
       (closure01 (fst_concat delete_extra_space year))"

definition graph_mdy :: "bool \<Rightarrow> transducer \<Rightarrow> transducer" where
  "graph_mdy deterministic apocope =
     (if deterministic
      then fst_concat
             (fst_concat (fst_concat (fst_concat month NEMO_SPACE) (day deterministic apocope))
               (closure01 (fst_concat NEMO_SPACE year)))
             (pynutil_delete (accep '' preserve_order: true''))
      else fst_concat (fst_concat (fst_concat month NEMO_SPACE) (day deterministic apocope))
             (closure01 (fst_concat NEMO_SPACE year)))"

definition DateFst_graph :: "bool \<Rightarrow> transducer \<Rightarrow> transducer" where
  "DateFst_graph deterministic apocope =
     fst_union (graph_dmy deterministic apocope) (graph_mdy deterministic apocope)"

section \<open>The fraction verbalizer (verbalizers/fraction.py)\<close>

text \<open>
  \<open>FractionFst.__init__\<close>, line by line. The constructor's flag \<open>deterministic\<close> is
  not used in its body. \<open>apocope\<close> and \<open>gender\<close> are the rewrites of
  \<open>strip_cardinal_apocope\<close> and \<open>shift_cardinal_gender\<close>, and \<open>accents\<close> is the
  transducer of that name that fraction.py imports from \<^verbatim>\<open>it/graph_utils.py\<close>: the three
  are not among the sources and are parameters. Where the Python code binds a name a
  second time, the later value has a suffix here.
\<close>

definition plural :: transducer where
  "plural = fst_concat (pynutil_delete (accep ''o'')) (pynutil_insert ''i'')"

definition conjunction :: transducer where
  "conjunction = pynutil_insert '' e ''"

definition integer :: "transducer \<Rightarrow> transducer" where
  \<open>integer apocope =
     fst_concat
       (fst_concat (pynutil_delete (accep ''integer_part: "''))
         (strip_cardinal_apocope apocope (closure_from 0 NEMO_NOT_QUOTE)))
       (pynutil_delete (accep ''"''))\<close>

definition numerator_one :: transducer where
  \<open>numerator_one =
     fst_concat (fst_concat (pynutil_delete (accep ''numerator: "'')) (accep ''un''))
       (pynutil_delete (accep ''" ''))\<close>

definition numerator :: transducer where
  \<open>numerator =
     fst_concat
       (fst_concat (pynutil_delete (accep ''numerator: "''))
         (difference (closure_from 0 NEMO_NOT_QUOTE) (accep ''un'')))
       (pynutil_delete (accep ''" ''))\<close>

definition denominator_add_stem :: transducer where
  \<open>denominator_add_stem =
     fst_concat (pynutil_delete (accep ''denominator: "''))
       (fst_concat (closure_from 0 NEMO_NOT_QUOTE)
         (pynutil_delete (accep ''" morphosyntactic_features: "add_root"'')))\<close>

definition denominator_ordinal :: transducer where
  \<open>denominator_ordinal =
     fst_concat (pynutil_delete (accep ''denominator: "''))
       (fst_concat (closure_from 0 NEMO_NOT_QUOTE)
         (pynutil_delete (accep ''" morphosyntactic_features: "ordinal"'')))\<close>

definition denominator_cardinal :: transducer where
  \<open>denominator_cardinal =
     fst_concat (pynutil_delete (accep ''denominator: "''))
       (fst_concat (closure_from 0 NEMO_NOT_QUOTE) (pynutil_delete (accep ''"'')))\<close>

definition denominator_singular :: transducer where
  "denominator_singular = fst_union denominator_add_stem denominator_ordinal"

definition denominator_plural :: transducer where
  "denominator_plural = fst_concat denominator_singular plural"

definition merge :: transducer where
  "merge =
     compose (cdrewrite (cross (accep '' e '') ''i'') (lctx (accep [])) (rctx (accep [])))
       (cdrewrite delete_space (lctx (accep []))
          (rctx (difference (char_class NEMO_CHAR) (accep ''parte''))))"

definition delete_duplicates :: transducer where
  "delete_duplicates =
     cdrewrite (string_map [(''aa'', ''a''), (''oo'', ''o'')]) (lctx (accep [])) (rctx (accep []))"

definition remove_accents :: "transducer \<Rightarrow> transducer" where
  "remove_accents accents =
     cdrewrite accents
       (lctx_bos_or NEMO_SPACE (closure_from 0 NEMO_NOT_SPACE))
       (rctx (fst_concat (closure_from 0 NEMO_NOT_SPACE)
                (fst_union (accep ''esimo'') (accep ''esima''))))"

definition merge_into_single_word :: "transducer \<Rightarrow> transducer" where
  "merge_into_single_word accents =
     compose (compose merge (remove_accents accents)) delete_duplicates"

definition fraction_default :: "transducer \<Rightarrow> transducer" where
  "fraction_default accents =
     fst_concat (fst_concat (fst_concat numerator delete_space) insert_space)
       (compose denominator_plural (merge_into_single_word accents))"

text \<open>Lines 99 to 101, the first value of \<open>fraction_with_one\<close>.\<close>

definition fraction_with_one_0 :: "transducer \<Rightarrow> transducer" where
  "fraction_with_one_0 accents =
     fst_concat (fst_concat (fst_concat numerator_one delete_space) insert_space)
       (compose denominator_singular (merge_into_single_word accents))"

definition fraction_with_cardinal :: "transducer \<Rightarrow> transducer" where
  "fraction_with_cardinal apocope =
     fst_concat (strip_cardinal_apocope apocope (fst_union numerator numerator_one))
       (fst_concat (fst_concat delete_space (pynutil_insert '' fratto ''))
          (strip_cardinal_apocope apocope denominator_cardinal))"

text \<open>Lines 108 to 110, the second value of \<open>fraction_with_one\<close>.\<close>

definition un_mezzo :: transducer where
  "un_mezzo = cdrewrite (cross (accep ''un mezzo'') ''mezzo'') (lctx (accep [])) (rctx (accep []))"

definition fraction_with_one :: "transducer \<Rightarrow> transducer" where
  "fraction_with_one accents = compose (fraction_with_one_0 accents) un_mezzo"

definition fraction :: "transducer \<Rightarrow> transducer \<Rightarrow> transducer" where
  "fraction apocope accents =
     fst_union (fst_union (fraction_with_one accents) (fraction_default accents))
       (fraction_with_cardinal apocope)"

definition graph_masc :: "transducer \<Rightarrow> transducer \<Rightarrow> transducer" where
  "graph_masc apocope accents =
     fst_concat (closure01 (fst_concat (fst_concat (integer apocope) delete_space) conjunction))
       (fraction apocope accents)"

definition integer_fem :: "transducer \<Rightarrow> transducer \<Rightarrow> transducer" where
  "integer_fem apocope gender = shift_cardinal_gender gender (integer apocope)"

text \<open>Lines 117 to 122 and 123 to 125: the values the feminine graph is built from.\<close>

definition fraction_default_fem :: "transducer \<Rightarrow> transducer \<Rightarrow> transducer" where
  "fraction_default_fem gender accents =
     fst_union (fraction_default accents)
       (fst_concat
          (fst_concat (fst_concat (shift_cardinal_gender gender numerator) delete_space)
             insert_space)
          (compose denominator_plural (cross (accep ''mezzo'') ''mezza'')))"

definition fraction_with_one_fem :: "transducer \<Rightarrow> transducer" where
  "fraction_with_one_fem accents =
     fst_union (fraction_with_one accents)
       (fst_concat (fst_concat (pynutil_delete numerator_one) delete_space)
          (compose denominator_singular (cross (accep ''mezzo'') ''mezza'')))"

definition fraction_fem :: "transducer \<Rightarrow> transducer \<Rightarrow> transducer \<Rightarrow> transducer" where
  "fraction_fem apocope gender accents =
     fst_union (fst_union (fraction_with_one_fem accents) (fraction_default_fem gender accents))
       (fraction_with_cardinal apocope)"

definition graph_fem :: "transducer \<Rightarrow> transducer \<Rightarrow> transducer \<Rightarrow> transducer" where
  "graph_fem apocope gender accents =
     fst_concat
       (closure01 (fst_concat (fst_concat (integer_fem apocope gender) delete_space) conjunction))
       (fraction_fem apocope gender accents)"

definition FractionFst_graph :: "transducer \<Rightarrow> transducer \<Rightarrow> transducer \<Rightarrow> transducer" where
  "FractionFst_graph apocope gender accents =
     fst_union (graph_masc apocope accents) (graph_fem apocope gender accents)"

text \<open>
  What the second rule of \<open>merge\<close> does to a string, as a function: every blank is
  deleted but one that is the last character of the string.
\<close>

fun delete_inner_blanks :: "string \<Rightarrow> string" where
  "delete_inner_blanks [] = []"
| "delete_inner_blanks [c] = [c]"
| "delete_inner_blanks (c # d # cs) =
     (if NEMO_WHITE_SPACE c then delete_inner_blanks (d # cs)
      else c # delete_inner_blanks (d # cs))"

section \<open>Reading a prefix of the input\<close>

text \<open>
  Proof devices. \<open>pre f w\<close> is what \<open>f\<close> can read from the front of \<open>w\<close>: the pairs of an
  output and the input left over. Concatenation of transducers is sequencing of such
  readers (\<open>pbind\<close>).
\<close>

definition pre :: "transducer \<Rightarrow> string \<Rightarrow> (string \<times> string) set" where
  "pre f w = {(a, drop k w) | a k. k \<le> length w \<and> a \<in> f (take k w)}"

definition pbind ::
  "(string \<times> string) set \<Rightarrow> (string \<Rightarrow> (string \<times> string) set) \<Rightarrow> (string \<times> string) set" where
  "pbind S F = (\<Union>(a, v)\<in>S. (\<lambda>(b, v'). (a @ b, v')) ` F v)"

section \<open>Laws of the combinators\<close>

lemma fst_concat_iff:
  "x \<in> fst_concat f g w \<longleftrightarrow> (\<exists>u v a b. w = u @ v \<and> a \<in> f u \<and> b \<in> g v \<and> x = a @ b)"
proof
  assume "x \<in> fst_concat f g w"
  then obtain k a b where "k \<le> length w" "a \<in> f (take k w)" "b \<in> g (drop k w)" "x = a @ b"
    unfolding fst_concat_def by (fastforce simp: less_Suc_eq_le)
  then show "\<exists>u v a b. w = u @ v \<and> a \<in> f u \<and> b \<in> g v \<and> x = a @ b"
    by (metis append_take_drop_id)
next
  assume "\<exists>u v a b. w = u @ v \<and> a \<in> f u \<and> b \<in> g v \<and> x = a @ b"
  then obtain u v a b where h: "w = u @ v" "a \<in> f u" "b \<in> g v" "x = a @ b" by blast
  have "length u \<in> set [0..<Suc (length w)]" using h(1) by simp
  moreover have "a \<in> f (take (length u) w)" "b \<in> g (drop (length u) w)" using h by simp_all
  ultimately show "x \<in> fst_concat f g w"
    unfolding fst_concat_def using h(4) by blast
qed

lemma pre_iff: "(a, v) \<in> pre f w \<longleftrightarrow> (\<exists>u. w = u @ v \<and> a \<in> f u)"
proof
  assume "(a, v) \<in> pre f w"
  then obtain k where "k \<le> length w" "v = drop k w" "a \<in> f (take k w)"
    by (auto simp: pre_def)
  then show "\<exists>u. w = u @ v \<and> a \<in> f u" by (metis append_take_drop_id)
next
  assume "\<exists>u. w = u @ v \<and> a \<in> f u"
  then obtain u where h: "w = u @ v" "a \<in> f u" by blast
  then have "length u \<le> length w" "v = drop (length u) w" "a \<in> f (take (length u) w)" by simp_all
  then show "(a, v) \<in> pre f w" unfolding pre_def by blast
qed

lemma out_pre: "f w = {a. (a, []) \<in> pre f w}"
  by (auto simp: pre_iff)

lemma fst_concat_assoc: "fst_concat (fst_concat f g) h = fst_concat f (fst_concat g h)"
proof (rule ext, rule set_eqI)
  fix w x
  show "x \<in> fst_concat (fst_concat f g) h w \<longleftrightarrow> x \<in> fst_concat f (fst_concat g h) w"
    unfolding fst_concat_iff
    apply safe
     apply (metis append.assoc)
    apply (metis append.assoc)
    done
qed

lemma pre_concat: "pre (fst_concat f g) w = pbind (pre f w) (pre g)"
proof (rule set_eqI, clarify)
  fix x v
  show "(x, v) \<in> pre (fst_concat f g) w \<longleftrightarrow> (x, v) \<in> pbind (pre f w) (pre g)"
  proof
    assume "(x, v) \<in> pre (fst_concat f g) w"
    then obtain u where u: "w = u @ v" "x \<in> fst_concat f g u" by (auto simp: pre_iff)
    then obtain u1 u2 a b where s: "u = u1 @ u2" "a \<in> f u1" "b \<in> g u2" "x = a @ b"
      by (auto simp: fst_concat_iff)
    have "(a, u2 @ v) \<in> pre f w" using u s by (auto simp: pre_iff)
    moreover have "(b, v) \<in> pre g (u2 @ v)" using s by (auto simp: pre_iff)
    ultimately show "(x, v) \<in> pbind (pre f w) (pre g)"
      unfolding pbind_def using s(4) by force
  next
    assume "(x, v) \<in> pbind (pre f w) (pre g)"
    then obtain a v1 b where h: "(a, v1) \<in> pre f w" "(b, v) \<in> pre g v1" "x = a @ b"
      by (auto simp: pbind_def)
    then obtain u1 u2 where "w = u1 @ v1" "a \<in> f u1" "v1 = u2 @ v" "b \<in> g u2"
      by (auto simp: pre_iff)
    then show "(x, v) \<in> pre (fst_concat f g) w"
      using h(3) unfolding pre_iff fst_concat_iff by (metis append.assoc)
  qed
qed


lemma pre_union: "pre (fst_union f g) w = pre f w \<union> pre g w"
  by (auto simp: pre_iff fst_union_def)

lemma pre_lit:
  "pre (cross (accep s) t) w = (if take (length s) w = s then {(t, drop (length s) w)} else {})"
proof (rule set_eqI, clarify)
  fix a v
  have "(\<exists>u. w = u @ v \<and> a \<in> cross (accep s) t u) \<longleftrightarrow> (w = s @ v \<and> a = t)"
    by (auto simp: cross_def accep_def)
  also have "\<dots> \<longleftrightarrow> (take (length s) w = s \<and> v = drop (length s) w \<and> a = t)"
    by (metis append_eq_conv_conj)
  finally show "(a, v) \<in> pre (cross (accep s) t) w \<longleftrightarrow>
      (a, v) \<in> (if take (length s) w = s then {(t, drop (length s) w)} else {})"
    by (auto simp: pre_iff)
qed

lemma pbind_iff:
  "(x, v) \<in> pbind S F \<longleftrightarrow> (\<exists>a v1 b. (a, v1) \<in> S \<and> (b, v) \<in> F v1 \<and> x = a @ b)"
  unfolding pbind_def by force

lemma pbind_empty [simp]: "pbind {} F = {}"
  by (simp add: pbind_def)

lemma pbind_single [simp]: "pbind {(a, v)} F = (\<lambda>(b, v'). (a @ b, v')) ` F v"
  by (simp add: pbind_def)

lemma pre_lit_concat:
  "pre (fst_concat (cross (accep s) t) g) w =
     (if take (length s) w = s then (\<lambda>(b, v). (t @ b, v)) ` pre g (drop (length s) w) else {})"
  by (simp add: pre_concat pre_lit)

lemma pre_run:
  assumes R: "\<And>u. R u = (if n \<le> length u \<and> list_all P u then H u else {})"
  shows "(a, v) \<in> pre R w \<longleftrightarrow>
    (\<exists>k. n \<le> k \<and> k \<le> length (takeWhile P w) \<and> v = drop k w \<and> a \<in> H (take k w))"
proof
  assume "(a, v) \<in> pre R w"
  then obtain u where u: "w = u @ v" "a \<in> R u" by (auto simp: pre_iff)
  then have p: "n \<le> length u" "list_all P u" "a \<in> H u"
    by (auto simp: R split: if_splits)
  have "takeWhile P w = u @ takeWhile P v"
    using p(2) u(1) by (simp add: takeWhile_append2 list_all_iff)
  then have "length u \<le> length (takeWhile P w)" by simp
  with p u show "\<exists>k. n \<le> k \<and> k \<le> length (takeWhile P w) \<and> v = drop k w \<and> a \<in> H (take k w)"
    by (intro exI[of _ "length u"]) simp
next
  assume "\<exists>k. n \<le> k \<and> k \<le> length (takeWhile P w) \<and> v = drop k w \<and> a \<in> H (take k w)"
  then obtain k where k: "n \<le> k" "k \<le> length (takeWhile P w)" "v = drop k w" "a \<in> H (take k w)"
    by blast
  have le: "k \<le> length w" using k(2) length_takeWhile_le[of P w] by linarith
  have "take k w = take k (takeWhile P w)"
    using k(2) by (metis append_take_drop_id takeWhile_dropWhile_id take_append diff_is_0_eq take_0 append_Nil2)
  then have "list_all P (take k w)"
    by (metis (no_types, lifting) in_set_takeD list_all_iff set_takeWhileD)
  then have "a \<in> R (take k w)" using k le by (simp add: R)
  then show "(a, v) \<in> pre R w"
    using k(3) by (auto simp: pre_iff intro!: exI[of _ "take k w"])
qed

lemma pre_run_lit_concat:
  assumes R: "\<And>u. R u = (if n \<le> length u \<and> list_all P u then H u else {})"
    and q: "\<not> P q"
  shows "pre (fst_concat R (fst_concat (cross (accep (q # s)) t) g)) w =
     (if n \<le> length (takeWhile P w) \<and> take (Suc (length s)) (dropWhile P w) = q # s
      then (\<Union>a\<in>H (takeWhile P w).
              (\<lambda>(b, v). (a @ t @ b, v)) ` pre g (drop (Suc (length s)) (dropWhile P w)))
      else {})"
  (is "?L = ?Rhs")
proof (rule set_eqI, clarify)
  fix x v
  let ?u = "takeWhile P w" and ?d = "dropWhile P w"
  have key: "\<And>k. k \<le> length ?u \<Longrightarrow> take 1 (drop k w) = [q] \<Longrightarrow> k = length ?u"
  proof -
    fix k assume k: "k \<le> length ?u" "take 1 (drop k w) = [q]"
    show "k = length ?u"
    proof (rule ccontr)
      assume "k \<noteq> length ?u"
      then have lt: "k < length ?u" using k(1) by simp
      then have "?u ! k \<in> set ?u" by simp
      then have "P (?u ! k)" by (meson set_takeWhileD)
      moreover have "?u ! k = w ! k" using lt by (simp add: takeWhile_nth)
      moreover have "k < length w" using lt length_takeWhile_le[of P w] by linarith
      then have "drop k w = w ! k # drop (Suc k) w" by (simp add: Cons_nth_drop_Suc)
      then have "w ! k = q" using k(2) by simp
      ultimately show False using q by simp
    qed
  qed
  show "(x, v) \<in> ?L \<longleftrightarrow> (x, v) \<in> ?Rhs"
  proof
    assume "(x, v) \<in> ?L"
    then obtain a v1 b where h: "(a, v1) \<in> pre R w"
        "(b, v) \<in> pre (fst_concat (cross (accep (q # s)) t) g) v1" "x = a @ b"
      unfolding pre_concat[of R] pbind_iff by blast
    from h(1) obtain k where k: "n \<le> k" "k \<le> length ?u" "v1 = drop k w" "a \<in> H (take k w)"
      using pre_run[OF R] by blast
    from h(2) have l: "take (Suc (length s)) v1 = q # s"
      and b: "(b, v) \<in> (\<lambda>(b, v). (t @ b, v)) ` pre g (drop (Suc (length s)) v1)"
      by (auto simp: pre_lit_concat split: if_splits)
    have "take 1 (drop k w) = [q]"
      using l k(3) by (metis One_nat_def Suc_le_mono le0 length_Cons take_Cons' take_Suc_Cons take_0 list.inject take_take min.absorb1 zero_less_one) 
    then have keq: "k = length ?u" using key k(2) by blast
    then have "take k w = ?u" "drop k w = ?d"
      by (metis append_eq_conv_conj takeWhile_dropWhile_id)+
    with k l b h(3) show "(x, v) \<in> ?Rhs" by auto
  next
    assume r: "(x, v) \<in> ?Rhs"
    then have c: "n \<le> length ?u" "take (Suc (length s)) ?d = q # s"
      by (auto split: if_splits)
    from r c obtain a b where ab: "a \<in> H ?u" "(b, v) \<in> pre g (drop (Suc (length s)) ?d)" "x = a @ t @ b"
      by auto
    have tk: "take (length ?u) w = ?u" "drop (length ?u) w = ?d"
      by (metis append_eq_conv_conj takeWhile_dropWhile_id)+
    have "(a, ?d) \<in> pre R w"
      using pre_run[OF R, of a ?d w] c(1) ab(1) tk by (intro iffD2[OF pre_run[OF R]] exI[of _ "length ?u"]) simp
    moreover have "(t @ b, v) \<in> pre (fst_concat (cross (accep (q # s)) t) g) ?d"
      using c(2) ab(2) by (auto simp: pre_lit_concat)
    ultimately show "(x, v) \<in> ?L"
      unfolding pre_concat[of R] pbind_iff using ab(3) by blast
  qed
qed

lemma accep_as_cross: "accep s = cross (accep s) s"
  by (rule ext) (simp add: cross_def accep_def)

lemma fst_concat_eps: "fst_concat f (accep []) = f"
  by (rule ext, rule set_eqI) (auto simp: fst_concat_iff accep_def split: if_splits)

lemma pre_eps: "pre (accep []) w = {([], w)}"
  by (auto simp: pre_iff accep_def split: if_splits)

lemma pre_compose: "pre (compose f g) w = (\<Union>(a, v)\<in>pre f w. (\<lambda>b. (b, v)) ` g a)"
  unfolding compose_def by (rule set_eqI) (force simp: pre_iff)

lemma pre_closure01: "pre (closure01 f) w = insert ([], w) (pre f w)"
  by (auto simp: closure01_def pre_union pre_eps)

lemma pre_run_lit:
  assumes R: "\<And>u. R u = (if n \<le> length u \<and> list_all P u then H u else {})"
    and q: "\<not> P q"
  shows "pre (fst_concat R (cross (accep (q # s)) t)) w =
     (if n \<le> length (takeWhile P w) \<and> take (Suc (length s)) (dropWhile P w) = q # s
      then (\<lambda>a. (a @ t, drop (Suc (length s)) (dropWhile P w))) ` H (takeWhile P w)
      else {})"
proof -
  have "pre (fst_concat R (cross (accep (q # s)) t)) w
      = pre (fst_concat R (fst_concat (cross (accep (q # s)) t) (accep []))) w"
    by (simp only: fst_concat_eps)
  also have "\<dots> = (if n \<le> length (takeWhile P w) \<and> take (Suc (length s)) (dropWhile P w) = q # s
      then (\<Union>a\<in>H (takeWhile P w).
              (\<lambda>(b, v). (a @ t @ b, v)) ` pre (accep []) (drop (Suc (length s)) (dropWhile P w)))
      else {})"
    by (rule pre_run_lit_concat[OF R q])
  also have "\<dots> = (if n \<le> length (takeWhile P w) \<and> take (Suc (length s)) (dropWhile P w) = q # s
      then (\<lambda>a. (a @ t, drop (Suc (length s)) (dropWhile P w))) ` H (takeWhile P w)
      else {})"
    by (auto simp: pre_eps)
  finally show ?thesis .
qed

lemma run_closure: "closure_from n P u = (if n \<le> length u \<and> list_all P u then (\<lambda>u. {u}) u else {})"
  by (simp add: closure_from_def)

lemma run_cross:
  "cross (closure_from n P) t u = (if n \<le> length u \<and> list_all P u then (\<lambda>u. {t}) u else {})"
  by (simp add: closure_from_def cross_def)

lemma run_compose:
  "compose (closure_from n P) A u = (if n \<le> length u \<and> list_all P u then A u else {})"
  by (simp add: closure_from_def compose_def)

lemma run_difference:
  "difference (closure_from n P) (accep z) u =
     (if n \<le> length u \<and> list_all P u then (\<lambda>u. if u = z then {} else {u}) u else {})"
  by (simp add: closure_from_def difference_def accep_def)

lemmas pre_closure_lit = pre_run_lit[OF run_closure]
lemmas pre_closure_lit_concat = pre_run_lit_concat[OF run_closure]
lemmas pre_crossrun_lit = pre_run_lit[OF run_cross]
lemmas pre_crossrun_lit_concat = pre_run_lit_concat[OF run_cross]

section \<open>Reading the fields of a date token\<close>

lemma NQ_quote: "\<not> NEMO_NOT_QUOTE (CHR 0x22)" by (simp add: NEMO_NOT_QUOTE_def)
lemma WS_quote: "\<not> NEMO_WHITE_SPACE (CHR 0x22)" by (simp add: NEMO_WHITE_SPACE_def)


lemma takeWhile_NQ [simp]:
  "CHR 0x22 \<notin> set m \<Longrightarrow> takeWhile NEMO_NOT_QUOTE (m @ CHR 0x22 # r) = m"
  by (induction m) (auto simp: NEMO_NOT_QUOTE_def)

lemma dropWhile_NQ [simp]:
  "CHR 0x22 \<notin> set m \<Longrightarrow> dropWhile NEMO_NOT_QUOTE (m @ CHR 0x22 # r) = CHR 0x22 # r"
  by (induction m) (auto simp: NEMO_NOT_QUOTE_def)

lemma day_cardinal_field:
  assumes "d \<noteq> []" "CHR 0x22 \<notin> set d"
  shows \<open>pre day_cardinal (''day: "'' @ d @ ''"'' @ r) = {(d, r)}\<close>
  using assms unfolding day_cardinal_def pynutil_delete_def fst_concat_assoc
  by (simp add: pre_lit_concat pre_closure_lit NQ_quote Suc_le_eq)


lemma dropWhile_sub_eq:
  assumes sub: "\<And>c. W c \<Longrightarrow> P c"
  shows "dropWhile W (dropWhile P w) = dropWhile P w"
proof (cases "dropWhile P w")
  case Nil then show ?thesis by (simp del: dropWhile_eq_Nil_conv)
next
  case (Cons c cs)
  then have "\<not> P c" by (metis hd_dropWhile list.sel(1) list.distinct(1))
  then have "\<not> W c" using sub by blast
  then show ?thesis using Cons by simp
qed

lemma pre_closure_ws_lit:
  assumes q: "\<not> P q" and sub: "\<And>c. W c \<Longrightarrow> P c"
    and last: "takeWhile P w = [] \<or> \<not> W (last (takeWhile P w))"
  shows "pre (fst_concat (closure_from n P)
            (fst_concat (cross (closure_from 0 W) t0) (cross (accep (q # s)) t))) w =
     (if n \<le> length (takeWhile P w) \<and> take (Suc (length s)) (dropWhile P w) = q # s
      then {(takeWhile P w @ t0 @ t, drop (Suc (length s)) (dropWhile P w))}
      else {})"
  (is "?L = ?Rhs")
proof (rule set_eqI, clarify)
  fix x v
  let ?u = "takeWhile P w" and ?d = "dropWhile P w"
  have Wq: "\<not> W q" using q sub by blast
  have tk: "take (length ?u) w = ?u" "drop (length ?u) w = ?d"
    by (metis append_eq_conv_conj takeWhile_dropWhile_id)+
  have inner: "\<And>v1. pre (fst_concat (cross (closure_from 0 W) t0) (cross (accep (q # s)) t)) v1 =
      (if take (Suc (length s)) (dropWhile W v1) = q # s
       then {(t0 @ t, drop (Suc (length s)) (dropWhile W v1))} else {})"
    by (simp add: pre_crossrun_lit Wq)
  show "(x, v) \<in> ?L \<longleftrightarrow> (x, v) \<in> ?Rhs"
  proof
    assume "(x, v) \<in> ?L"
    then obtain a v1 b where h: "(a, v1) \<in> pre (closure_from n P) w"
        "(b, v) \<in> pre (fst_concat (cross (closure_from 0 W) t0) (cross (accep (q # s)) t)) v1"
        "x = a @ b"
      unfolding pre_concat[of "closure_from n P"] pbind_iff by blast
    from h(1) obtain k where k: "n \<le> k" "k \<le> length ?u" "v1 = drop k w" "a = take k w"
      using pre_run[OF run_closure] by blast
    from h(2) have l: "take (Suc (length s)) (dropWhile W v1) = q # s"
      and b: "b = t0 @ t" "v = drop (Suc (length s)) (dropWhile W v1)"
      by (auto simp: inner split: if_splits)
    have v1: "v1 = drop k ?u @ ?d"
      using k(2,3) by (metis drop_append diff_is_0_eq drop_0 takeWhile_dropWhile_id)
    have keq: "k = length ?u"
    proof (rule ccontr)
      assume "k \<noteq> length ?u"
      then have lt: "k < length ?u" using k(2) by simp
      then have ne: "drop k ?u \<noteq> []" by simp
      have allP: "\<forall>c\<in>set (drop k ?u). P c"
        by (meson in_set_dropD set_takeWhileD)
      have "\<forall>c\<in>set (drop k ?u). W c"
      proof (rule ccontr)
        assume "\<not> (\<forall>c\<in>set (drop k ?u). W c)"
        then have "dropWhile W (drop k ?u) \<noteq> []" by (simp add: dropWhile_eq_Nil_conv)
        then have dw: "dropWhile W v1 = dropWhile W (drop k ?u) @ ?d"
          unfolding v1 by (metis dropWhile_append1 dropWhile_eq_Nil_conv)
        have "hd (dropWhile W (drop k ?u)) \<in> set (drop k ?u)"
          using \<open>dropWhile W (drop k ?u) \<noteq> []\<close> by (metis hd_in_set set_dropWhileD)
        then have "P (hd (dropWhile W (drop k ?u)))" using allP by blast
        moreover have "hd (dropWhile W v1) = q" using l by (metis list.sel(1) take_Suc hd_take not_Cons_self2 take_eq_Nil2 zero_less_Suc) 
        moreover have "hd (dropWhile W v1) = hd (dropWhile W (drop k ?u))"
          using dw \<open>dropWhile W (drop k ?u) \<noteq> []\<close> by simp
        ultimately show False using q by simp
      qed
      then have "W (last (drop k ?u))" using ne last_in_set by blast
      then have "W (last ?u)" using lt by (simp add: last_drop)
      moreover have "?u \<noteq> []" using lt by auto
      ultimately show False using last by blast
    qed
    then have "v1 = ?d" "a = ?u" using k tk by simp_all
    then have "dropWhile W v1 = ?d" using dropWhile_sub_eq[OF sub] by simp
    with l b h(3) k keq \<open>a = ?u\<close> show "(x, v) \<in> ?Rhs" by simp
  next
    assume r: "(x, v) \<in> ?Rhs"
    then have c: "n \<le> length ?u" "take (Suc (length s)) ?d = q # s"
      and x: "x = ?u @ t0 @ t" "v = drop (Suc (length s)) ?d"
      by (auto split: if_splits)
    have "(?u, ?d) \<in> pre (closure_from n P) w"
      using c(1) tk by (intro iffD2[OF pre_run[OF run_closure]] exI[of _ "length ?u"]) simp
    moreover have "(t0 @ t, v) \<in> pre (fst_concat (cross (closure_from 0 W) t0) (cross (accep (q # s)) t)) ?d"
      using c(2) x(2) by (simp add: inner dropWhile_sub_eq[OF sub])
    ultimately show "(x, v) \<in> ?L"
      unfolding pre_concat[of "closure_from n P"] pbind_iff using x(1) by blast
  qed
qed


lemma takeWhile_WS_nonblank [simp]:
  "\<not> NEMO_WHITE_SPACE c \<Longrightarrow> takeWhile NEMO_WHITE_SPACE (c # r) = []"
  by simp

lemma WS_simps [simp]:
  "NEMO_WHITE_SPACE (CHR '' '')" "\<not> NEMO_WHITE_SPACE (CHR ''m'')" "\<not> NEMO_WHITE_SPACE (CHR ''y'')"
  "\<not> NEMO_WHITE_SPACE (CHR 0x22)"
  by (simp_all add: NEMO_WHITE_SPACE_def)

lemma NQ_simps [simp]:
  "\<not> NEMO_NOT_QUOTE (CHR 0x22)" "NEMO_WHITE_SPACE c \<Longrightarrow> NEMO_NOT_QUOTE c"
  by (auto simp: NEMO_NOT_QUOTE_def NEMO_WHITE_SPACE_def)

lemma pbind_insert: "pbind (insert (a, v) S) F = (\<lambda>(b, v'). (a @ b, v')) ` F v \<union> pbind S F"
  by (simp add: pbind_def)

lemma rewrite_from_bos_later: "l \<noteq> [] \<Longrightarrow> rewrite_from tau lctx_bos rc l r = {r}"
  by (induction r arbitrary: l) (simp_all add: matches_def lctx_bos_def)

lemma primero_eq: "primero w = {if w = ''uno'' then ''primo'' else w}"
proof (cases w)
  case Nil
  then show ?thesis by (simp add: primero_def cdrewrite_def)
next
  case (Cons c cs)
  show ?thesis
  proof (cases "w = ''uno''")
    case True
    then show ?thesis
      by (simp add: primero_def cdrewrite_def matches_def lctx_bos_def rctx_eos_def cross_def accep_def)
  next
    case False
    have "matches (cross (accep ''uno'') ''primo'') lctx_bos rctx_eos [] c cs = []"
      using False Cons
      by (auto simp: matches_def filter_empty_conv rctx_eos_def cross_def accep_def)
    then show ?thesis
      using False Cons by (simp add: primero_def cdrewrite_def rewrite_from_bos_later)
  qed
qed

lemma month_field:
  assumes "m \<noteq> []" "CHR 0x22 \<notin> set m"
  shows \<open>pre month (''month: "'' @ m @ ''"'' @ r) = {(m, r)}\<close>
  using assms unfolding month_def pynutil_delete_def fst_concat_assoc delete_space_def
  by (simp add: pre_lit_concat pre_closure_lit pre_crossrun_lit_concat Suc_le_eq)

lemma year_field:
  assumes "y \<noteq> []" "CHR 0x22 \<notin> set y" "\<not> NEMO_WHITE_SPACE (last y)"
  shows \<open>pre year (''year: "'' @ y @ ''"'' @ r) = {(y, r)}\<close>
  using assms unfolding year_def pynutil_delete_def fst_concat_assoc delete_space_def
  by (simp add: pre_lit_concat pre_closure_ws_lit pre_crossrun_lit_concat Suc_le_eq)


lemma day_field:
  assumes "d \<noteq> []" "CHR 0x22 \<notin> set d"
  shows \<open>pre (day True apocope) (''day: "'' @ d @ ''"'' @ r) = (\<lambda>t. (t, r)) ` (\<Union>x\<in>apocope d. primero x)\<close>
  unfolding day_def strip_cardinal_apocope_def if_True pre_compose day_cardinal_field[OF assms]
  by auto

lemma des_month_field:
  assumes "m \<noteq> []" "CHR 0x22 \<notin> set m"
  shows \<open>pre (fst_concat delete_extra_space month) ('' month: "'' @ m @ ''"'' @ r) = {('' '' @ m, r)}\<close>
  using assms unfolding month_def pynutil_delete_def fst_concat_assoc delete_space_def delete_extra_space_def
  by (simp add: pre_lit_concat pre_closure_lit pre_crossrun_lit_concat Suc_le_eq)

lemma des_year_field:
  assumes "y \<noteq> []" "CHR 0x22 \<notin> set y" "\<not> NEMO_WHITE_SPACE (last y)"
  shows \<open>pre (fst_concat delete_extra_space year) ('' year: "'' @ y @ ''"'' @ r) = {('' '' @ y, r)}\<close>
  using assms unfolding year_def pynutil_delete_def fst_concat_assoc delete_space_def delete_extra_space_def
  by (simp add: pre_lit_concat pre_closure_ws_lit pre_crossrun_lit_concat Suc_le_eq)

lemma des_year_not_month:
  \<open>pre (fst_concat delete_extra_space year) ('' month: "'' @ r) = {}\<close>
  unfolding year_def pynutil_delete_def fst_concat_assoc delete_space_def delete_extra_space_def
  by (simp add: pre_lit_concat pre_closure_ws_lit pre_crossrun_lit_concat Suc_le_eq)

lemma des_nil:
  "pre (fst_concat delete_extra_space year) [] = {}"
  "pre (fst_concat delete_extra_space month) [] = {}"
  unfolding year_def month_def pynutil_delete_def fst_concat_assoc delete_space_def delete_extra_space_def
  by (simp_all add: pre_lit_concat pre_closure_ws_lit pre_crossrun_lit_concat Suc_le_eq)

lemma des_month_not_year:
  \<open>pre (fst_concat delete_extra_space month) ('' year: "'' @ r) = {}\<close>
  unfolding month_def pynutil_delete_def fst_concat_assoc delete_space_def delete_extra_space_def
  by (simp add: pre_lit_concat pre_closure_ws_lit pre_crossrun_lit_concat Suc_le_eq)

lemma month_not_day:
  \<open>pre month (''day: "'' @ r) = {}\<close>
  unfolding month_def pynutil_delete_def fst_concat_assoc delete_space_def
  by (simp add: pre_lit_concat)

lemma graph_dmy_token:
  assumes d: "d \<noteq> []" "CHR 0x22 \<notin> set d"
    and m: "m \<noteq> []" "CHR 0x22 \<notin> set m"
    and y: "y \<noteq> []" "CHR 0x22 \<notin> set y" "\<not> NEMO_WHITE_SPACE (last y)"
  shows \<open>graph_dmy True apocope (''day: "'' @ d @ ''" month: "'' @ m @ ''" year: "'' @ y @ ''"'')
     = (\<lambda>t. t @ '' '' @ m @ '' '' @ y) ` (\<Union>x\<in>apocope d. primero x)\<close>
proof -
  have T: \<open>''day: "'' @ d @ ''" month: "'' @ m @ ''" year: "'' @ y @ ''"''
      = ''day: "'' @ d @ ''"'' @ ('' month: "'' @ m @ ''"'' @ ('' year: "'' @ y @ ''"'' @ []))\<close>
    by simp
  show ?thesis
    apply (subst out_pre)
    unfolding T graph_dmy_def
      pre_concat[of "fst_concat (day True apocope) (closure01 (fst_concat delete_extra_space month))"]
      pre_concat[of "day True apocope"]
      pre_closure01 day_field[OF d]
    unfolding pbind_def
    apply (simp only: des_month_field[OF m] des_year_field[OF y] des_year_not_month des_nil
       UN_insert UN_empty image_insert image_empty prod.case Un_empty_right Un_empty_left image_Un
       UN_simps image_UN image_image UN_Un)
    apply auto
    done
qed


lemma graph_mdy_not_day:
  \<open>graph_mdy True apocope (''day: "'' @ r) = {}\<close>
  apply (subst out_pre)
  unfolding graph_mdy_def if_True pre_concat month_not_day pbind_empty
  by simp

lemma graph_mdy_marker:
  assumes "x \<in> graph_mdy True apocope w"
  shows "\<exists>u. w = u @ '' preserve_order: true''"
proof -
  from assms obtain u v b where "w = u @ v" "b \<in> pynutil_delete (accep '' preserve_order: true'') v"
    unfolding graph_mdy_def if_True fst_concat_iff[of x] by blast
  then show ?thesis
    by (auto simp: pynutil_delete_def cross_def accep_def split: if_splits)
qed

lemma year_not_marker: "pre year (''preserve_order: true'') = {}"
  unfolding year_def pynutil_delete_def fst_concat_assoc
  by (simp add: pre_lit_concat)

lemma pre_accep:
  "pre (accep s) w = (if take (length s) w = s then {(s, drop (length s) w)} else {})"
  by (metis accep_as_cross pre_lit)

lemma pre_space: "pre NEMO_SPACE ('' '' @ r) = {('' '', r)}"
  unfolding NEMO_SPACE_def by (simp add: pre_accep)

lemma pre_space_cons: "pre NEMO_SPACE (CHR '' '' # r) = {('' '', r)}"
  using pre_space[of r] by simp

lemma pre_marker:
  "pre (pynutil_delete (accep '' preserve_order: true'')) ('' preserve_order: true'') = {([], [])}"
  unfolding pynutil_delete_def by (simp add: pre_lit)

lemma graph_mdy_token:
  assumes d: "d \<noteq> []" "CHR 0x22 \<notin> set d"
    and m: "m \<noteq> []" "CHR 0x22 \<notin> set m"
  shows \<open>graph_mdy True apocope (''month: "'' @ m @ ''" day: "'' @ d @ ''" preserve_order: true'')
     = (\<lambda>t. m @ '' '' @ t) ` (\<Union>x\<in>apocope d. primero x)\<close>
proof -
  have T: \<open>''month: "'' @ m @ ''" day: "'' @ d @ ''" preserve_order: true''
      = ''month: "'' @ m @ ''"'' @ ('' '' @ (''day: "'' @ d @ ''"'' @ '' preserve_order: true''))\<close>
    by simp
  show ?thesis
    apply (subst out_pre)
    unfolding T graph_mdy_def if_True pre_concat pre_closure01 month_field[OF m]
    unfolding pbind_def
    apply (simp only: pre_space pre_space_cons day_field[OF d] year_not_marker pre_marker
       UN_insert UN_empty image_insert image_empty prod.case Un_empty_right Un_empty_left image_Un
       UN_simps image_UN image_image UN_Un)
    apply auto
    done
qed

section \<open>The claims about the date verbalizer\<close>

text \<open>
  Claim C10. The rewrite of the day word "uno" to "primo" is anchored at both ends of the
  string: \<open>primero\<close> changes the string "uno" and no other, so "ventuno" or "trentuno"
  pass through. In the deterministic day graph it acts on what the apocope rewrite makes
  of the text of the day field: the day field with text \<open>d\<close> yields, for every output
  \<open>t\<close> of the apocope rewrite on \<open>d\<close>, "primo" when \<open>t\<close> is "uno" and \<open>t\<close> itself
  otherwise.
\<close>

theorem primero_anchored_both_ends:
  assumes "d \<noteq> []" "CHR 0x22 \<notin> set d"
  shows \<open>primero w = {if w = ''uno'' then ''primo'' else w}
       \<and> day True apocope (''day: "'' @ d @ ''"'')
           = (\<Union>t\<in>apocope d. {if t = ''uno'' then ''primo'' else t})\<close>
proof
  show "primero w = {if w = ''uno'' then ''primo'' else w}" by (rule primero_eq)
  have \<open>day True apocope (''day: "'' @ d @ ''"'' @ [])
      = {a. (a, []::string) \<in> (\<lambda>t. (t, [])) ` (\<Union>x\<in>apocope d. primero x)}\<close>
    by (subst out_pre) (simp only: day_field[OF assms])
  also have "\<dots> = (\<Union>t\<in>apocope d. {if t = ''uno'' then ''primo'' else t})"
    by (auto simp: primero_eq)
  finally show \<open>day True apocope (''day: "'' @ d @ ''"'')
           = (\<Union>t\<in>apocope d. {if t = ''uno'' then ''primo'' else t})\<close>
    by simp
qed

theorem primero_anchored_both_ends_witness:
  \<open>primero ''uno'' = {''primo''} \<and> primero ''ventuno'' = {''ventuno''}
   \<and> primero ''trentuno'' = {''trentuno''}
   \<and> day True (\<lambda>w. {w}) ''day: "ventuno"'' = {''ventuno''}
   \<and> day True (\<lambda>w. {w}) ''day: "uno"'' = {''primo''}\<close>
  using primero_anchored_both_ends[of "''ventuno''" "''uno''" "\<lambda>w. {w}"]
    primero_anchored_both_ends[of "''ventuno''" "''ventuno''" "\<lambda>w. {w}"]
    primero_anchored_both_ends[of "''uno''" "''trentuno''" "\<lambda>w. {w}"]
  by simp

text \<open>
  Claim C2. In deterministic mode the date token with day "uno", a month \<open>m\<close> and a year
  \<open>y\<close> is verbalized to exactly one text, "primo", the month and the year in this order,
  one blank between them (the apocope rewrite is not in the sources: it is assumed to
  leave "uno" alone; the year is assumed not to end in a blank, which the graph could
  keep or delete). A token that does not end in the marker \<^verbatim>\<open> preserve_order: true\<close> has
  no path through the month-day-year graph, so all its outputs are day-month-year ones.
\<close>

theorem date_uno_day_month_year:
  assumes apo: "apocope ''uno'' = {''uno''}"
    and m: "m \<noteq> []" "CHR 0x22 \<notin> set m"
    and y: "y \<noteq> []" "CHR 0x22 \<notin> set y" "\<not> NEMO_WHITE_SPACE (last y)"
  shows \<open>DateFst_graph True apocope (''day: "uno" month: "'' @ m @ ''" year: "'' @ y @ ''"'')
           = {''primo '' @ m @ '' '' @ y}
       \<and> (\<forall>w. (\<nexists>u. w = u @ '' preserve_order: true'') \<longrightarrow>
              graph_mdy True apocope w = {} \<and>
              DateFst_graph True apocope w = graph_dmy True apocope w)\<close>
proof (intro conjI allI impI)
  let ?T = \<open>''day: "uno" month: "'' @ m @ ''" year: "'' @ y @ ''"''\<close>
  have "graph_mdy True apocope ?T = {}"
    using graph_mdy_not_day[of apocope \<open>''uno" month: "'' @ m @ ''" year: "'' @ y @ ''"''\<close>]
    by simp
  moreover have "graph_dmy True apocope ?T = {''primo '' @ m @ '' '' @ y}"
    using graph_dmy_token[of "''uno''" m y apocope] m y by (simp add: apo primero_eq)
  ultimately show "DateFst_graph True apocope ?T = {''primo '' @ m @ '' '' @ y}"
    unfolding DateFst_graph_def fst_union_def by (simp only: Un_empty_right)
next
  fix w assume "\<nexists>u. w = u @ '' preserve_order: true''"
  then show e: "graph_mdy True apocope w = {}" using graph_mdy_marker by blast
  show "DateFst_graph True apocope w = graph_dmy True apocope w"
    by (simp add: DateFst_graph_def fst_union_def e)
qed

theorem date_uno_day_month_year_witness:
  \<open>DateFst_graph True (\<lambda>w. {w}) ''day: "uno" month: "maggio" year: "millenovecentonovanta"''
     = {''primo maggio millenovecentonovanta''}
   \<and> graph_mdy True (\<lambda>w. {w}) ''day: "uno" month: "maggio"'' = {}
   \<and> graph_mdy True (\<lambda>w. {w}) ''month: "maggio" day: "uno" preserve_order: true''
       = {''maggio primo''}\<close>
proof -
  have n: "\<nexists>u. ''day: \"uno\" month: \"maggio\"'' = u @ '' preserve_order: true''"
    by (auto simp: append_eq_Cons_conv Cons_eq_append_conv)
  have "graph_mdy True (\<lambda>w. {w}) ''month: \"maggio\" day: \"uno\" preserve_order: true''
       = {''maggio primo''}"
    using graph_mdy_token[of "''uno''" "''maggio''" "\<lambda>w. {w}"] by (simp add: primero_eq)
  then show ?thesis
    using date_uno_day_month_year[of "\<lambda>w. {w}" "''maggio''" "''millenovecentonovanta''"] n
    by (simp add: NEMO_WHITE_SPACE_def)
qed

section \<open>Reading the fields of a fraction token\<close>

lemma any_l: "lctx (accep []) l" 
  by (auto simp: lctx_def accep_def intro!: bexI[of _ "length l"])

lemma any_r: "rctx (accep []) r" 
  by (auto simp: rctx_def accep_def intro!: bexI[of _ 0])

lemma pre_cross: "pre (cross f t) w = (\<lambda>(a, v). (t, v)) ` pre f w"
  unfolding cross_def by (rule set_eqI) (force simp: pre_iff split: if_splits)

lemma pre_accep_concat:
  "pre (fst_concat (accep s) g) w =
     (if take (length s) w = s then (\<lambda>(b, v). (s @ b, v)) ` pre g (drop (length s) w) else {})"
  by (metis accep_as_cross pre_lit_concat)

lemma pre_delete_space_nonblank:
  assumes "takeWhile NEMO_WHITE_SPACE w = []"
  shows "pre (fst_concat delete_space g) w = pre g w"
proof -
  have "pre delete_space w = {([], w)}"
  proof (rule set_eqI, clarify)
    fix a v
    show "(a, v) \<in> pre delete_space w \<longleftrightarrow> (a, v) \<in> {([], w)}"
      unfolding delete_space_def pynutil_delete_def
      using pre_run[of "cross (closure_from 0 NEMO_WHITE_SPACE) []" 0 NEMO_WHITE_SPACE "\<lambda>u. {[]}" a v w]
        assms run_cross[of 0 NEMO_WHITE_SPACE "[]"]
      by auto
  qed
  then show ?thesis by (simp add: pre_concat)
qed

lemmas pre_difference_lit_concat = pre_run_lit_concat[OF run_difference]
lemmas pre_difference_lit = pre_run_lit[OF run_difference]
lemmas pre_composerun_lit_concat = pre_run_lit_concat[OF run_compose]
lemmas pre_composerun_lit = pre_run_lit[OF run_compose]

lemma numerator_one_field:
  \<open>pre numerator_one (''numerator: "'' @ ''un'' @ ''" '' @ r) = {(''un'', r)}\<close>
  unfolding numerator_one_def pynutil_delete_def fst_concat_assoc
  by (simp add: pre_lit_concat pre_accep_concat pre_lit)

lemma numerator_field:
  assumes "n \<noteq> ''un''" "CHR 0x22 \<notin> set n"
  shows \<open>pre numerator (''numerator: "'' @ n @ ''" '' @ r) = {(n, r)}\<close>
  using assms unfolding numerator_def pynutil_delete_def fst_concat_assoc
  by (simp add: pre_lit_concat pre_difference_lit)

lemma numerator_un:
  \<open>pre numerator (''numerator: "'' @ ''un'' @ ''" '' @ r) = {}\<close>
  unfolding numerator_def pynutil_delete_def fst_concat_assoc
  by (simp add: pre_lit_concat pre_difference_lit NEMO_NOT_QUOTE_def)

lemma denominator_singular_ordinal:
  assumes "CHR 0x22 \<notin> set d"
  shows \<open>pre denominator_singular (''denominator: "'' @ d @ ''" morphosyntactic_features: "ordinal"'' @ r)
     = {(d, r)}\<close>
  using assms unfolding denominator_singular_def denominator_add_stem_def denominator_ordinal_def
    pynutil_delete_def pre_union
  by (simp add: pre_lit_concat pre_closure_lit)

lemma denominator_singular_add_root:
  assumes "CHR 0x22 \<notin> set d"
  shows \<open>pre denominator_singular (''denominator: "'' @ d @ ''" morphosyntactic_features: "add_root"'' @ r)
     = {(d, r)}\<close>
  using assms unfolding denominator_singular_def denominator_add_stem_def denominator_ordinal_def
    pynutil_delete_def pre_union
  by (simp add: pre_lit_concat pre_closure_lit)

lemma denominator_cardinal_field:
  assumes "CHR 0x22 \<notin> set d"
  shows \<open>pre denominator_cardinal (''denominator: "'' @ d @ ''"'' @ r) = {(d, r)}\<close>
  using assms unfolding denominator_cardinal_def pynutil_delete_def
  by (simp add: pre_lit_concat pre_closure_lit)

lemma integer_not_numerator:
  \<open>pre (integer apocope) (''numerator: "'' @ r) = {}\<close>
  unfolding integer_def pynutil_delete_def fst_concat_assoc
  by (simp add: pre_lit_concat)


lemma WS_d [simp]: "\<not> NEMO_WHITE_SPACE (CHR ''d'')"
  by (simp add: NEMO_WHITE_SPACE_def)

lemma pre_delete_space_cons:
  "\<not> NEMO_WHITE_SPACE c \<Longrightarrow> pre (fst_concat delete_space g) (c # r) = pre g (c # r)"
  by (simp add: pre_delete_space_nonblank)

lemma pre_insert_concat:
  "pre (fst_concat (pynutil_insert t) g) w = (\<lambda>(b, v). (t @ b, v)) ` pre g w"
  unfolding pynutil_insert_def by (simp add: pre_lit_concat)

lemma space_then_den:
  \<open>pre (fst_concat delete_space (fst_concat insert_space g)) (''denominator: "'' @ r)
     = (\<lambda>(b, v). ('' '' @ b, v)) ` pre g (''denominator: "'' @ r)\<close>
  unfolding insert_space_def by (simp add: pre_delete_space_cons pre_insert_concat)


lemma denominator_singular_field:
  assumes "CHR 0x22 \<notin> set d" "feat = ''ordinal'' \<or> feat = ''add_root''"
  shows \<open>pre denominator_singular
      (''denominator: "'' @ d @ ''" morphosyntactic_features: "'' @ feat @ ''"'' @ r) = {(d, r)}\<close>
proof -
  from assms(2) show ?thesis
  proof
    assume "feat = ''ordinal''"
    then show ?thesis using denominator_singular_ordinal[OF assms(1), of r] by simp
  next
    assume "feat = ''add_root''"
    then show ?thesis using denominator_singular_add_root[OF assms(1), of r] by simp
  qed
qed


lemma pbind_image:
  "pbind ((\<lambda>a. (a, v)) ` A) F = (\<Union>a\<in>A. (\<lambda>(b, v'). (a @ b, v')) ` F v)"
  by (auto simp: pbind_def)



lemma split_two_two:
  assumes "take 2 w = a" "take 2 (drop 2 w) = b"
  shows "\<exists>t. w = a @ b @ t"
  using assms by (metis append_take_drop_id)

lemma numerator_one_other:
  assumes "n \<noteq> ''un''" "CHR 0x22 \<notin> set n"
  shows \<open>pre numerator_one (''numerator: "'' @ n @ ''" '' @ r) = {}\<close>
proof -
  define w where "w = n @ CHR 0x22 # CHR '' '' # r"
  have "\<not> (take 2 w = ''un'' \<and> take 2 (drop 2 w) = [CHR 0x22, CHR '' ''])"
  proof
    assume a: "take 2 w = ''un'' \<and> take 2 (drop 2 w) = [CHR 0x22, CHR '' '']"
    then obtain t where t: "w = ''un'' @ [CHR 0x22, CHR '' ''] @ t"
      using split_two_two by blast
    have "takeWhile NEMO_NOT_QUOTE w = n"
      unfolding w_def using assms(2) by simp
    moreover have "takeWhile NEMO_NOT_QUOTE w = ''un''"
      unfolding t by (simp add: NEMO_NOT_QUOTE_def)
    ultimately show False using assms(1) by simp
  qed
  then show ?thesis
    unfolding numerator_one_def pynutil_delete_def fst_concat_assoc w_def
    by (simp add: pre_lit_concat pre_accep_concat pre_lit eval_nat_numeral)
qed

lemma plural_nil: "pre plural [] = {}"
  unfolding plural_def pynutil_delete_def pynutil_insert_def by (simp add: pre_lit_concat)

lemma plural_o: "pre plural ''o'' = {(''i'', [])}"
  unfolding plural_def pynutil_delete_def pynutil_insert_def by (simp add: pre_lit_concat pre_lit)

lemma denominator_plural_token:
  assumes "CHR 0x22 \<notin> set d" "feat = ''ordinal'' \<or> feat = ''add_root''"
  shows \<open>pre denominator_plural
      (''denominator: "'' @ d @ ''" morphosyntactic_features: "'' @ feat @ ''"'' @ [])
     = {}\<close>
   and \<open>pre denominator_plural
      (''denominator: "'' @ d @ ''" morphosyntactic_features: "'' @ feat @ ''"'' @ ''o'')
     = {(d @ ''i'', [])}\<close>
  unfolding denominator_plural_def pre_concat denominator_singular_field[OF assms]
  by (simp_all add: plural_nil plural_o)

lemma numerator_any:
  assumes "CHR 0x22 \<notin> set n"
  shows \<open>pre (fst_union numerator numerator_one) (''numerator: "'' @ n @ ''" '' @ r) = {(n, r)}\<close>
proof (cases "n = ''un''")
  case True
  show ?thesis
    unfolding True pre_union numerator_un numerator_one_field by simp
next
  case False
  show ?thesis
    unfolding pre_union numerator_field[OF False assms] numerator_one_other[OF False assms]
    by simp
qed


lemma fraction_with_cardinal_token:
  assumes "CHR 0x22 \<notin> set n" "CHR 0x22 \<notin> set d"
  shows \<open>pre (fraction_with_cardinal apocope)
      (''numerator: "'' @ n @ ''" '' @ (''denominator: "'' @ d @ ''"'' @ r))
     = (\<lambda>(a, b). (a @ '' fratto '' @ b, r)) ` (apocope n \<times> apocope d)\<close>
proof -
  have 1: \<open>pre (compose (fst_union numerator numerator_one) apocope)
       (''numerator: "'' @ n @ ''" '' @ v) = (\<lambda>a. (a, v)) ` apocope n\<close> for v
    unfolding pre_compose numerator_any[OF assms(1)] by auto
  have 2: \<open>pre (fst_concat delete_space (fst_concat (pynutil_insert '' fratto '')
                (compose denominator_cardinal apocope)))
       (''denominator: "'' @ d @ ''"'' @ r) = (\<lambda>b. ('' fratto '' @ b, r)) ` apocope d\<close>
  proof -
    have h: \<open>pre (fst_concat delete_space (fst_concat (pynutil_insert '' fratto '') g))
        (''denominator: "'' @ v) = (\<lambda>(b, v). ('' fratto '' @ b, v)) ` pre g (''denominator: "'' @ v)\<close>
      for g v
      by (simp add: pre_delete_space_cons pre_insert_concat)
    show ?thesis
      unfolding h pre_compose denominator_cardinal_field[OF assms(2)]
      by (auto simp: image_iff)
  qed
  show ?thesis
    unfolding fraction_with_cardinal_def strip_cardinal_apocope_def fst_concat_assoc
      pre_concat[of "compose (fst_union numerator numerator_one) apocope"] 1
      pbind_image 2
    by (auto simp: image_iff)
qed


lemma out_pre_rest: "v \<noteq> [] \<Longrightarrow> {a. (a, []::string) \<in> (\<lambda>x. (h x, v)) ` U} = {}"
  by auto

lemma integer_part_skipped:
  \<open>pre (fst_concat (closure01 (fst_concat (fst_concat I delete_space) conjunction)) g)
      (''numerator: "'' @ r) = pre g (''numerator: "'' @ r)\<close>
  if \<open>pre I (''numerator: "'' @ r) = {}\<close>
  unfolding fst_concat_assoc
    pre_concat[of "closure01 (fst_concat I (fst_concat delete_space conjunction))"]
    pre_closure01 pre_concat[of I] that pbind_empty pbind_single
  by (simp add: case_prod_beta)

lemma integer_fem_not_numerator:
  \<open>pre (integer_fem apocope gender) (''numerator: "'' @ r) = {}\<close>
  unfolding integer_fem_def shift_cardinal_gender_def pre_compose integer_not_numerator
  by simp

lemma fraction_with_cardinal_features:
  assumes "CHR 0x22 \<notin> set n" "CHR 0x22 \<notin> set d"
  shows \<open>{a. (a, []) \<in> pre (fraction_with_cardinal apocope)
      (''numerator: "'' @ n @ ''" '' @
        (''denominator: "'' @ d @ ''" morphosyntactic_features: "'' @ feat @ ''"''))} = {}\<close>
proof -
  have \<open>''numerator: "'' @ n @ ''" '' @
        (''denominator: "'' @ d @ ''" morphosyntactic_features: "'' @ feat @ ''"'')
      = ''numerator: "'' @ n @ ''" '' @ (''denominator: "'' @ d @ ''"'' @
           ('' morphosyntactic_features: "'' @ feat @ ''"''))\<close>
    by simp
  then show ?thesis
    by (simp only: fraction_with_cardinal_token[OF assms]) auto
qed






lemma rewrite_from_no_right:
  "(\<And>k. k \<le> length r \<Longrightarrow> \<not> rc (drop k r)) \<Longrightarrow> rewrite_from tau lc rc l r = {r}"
proof (induction r arbitrary: l)
  case Nil
  then show ?case by simp
next
  case (Cons c cs)
  have h: "\<not> rc (drop k cs)" if "k \<le> length cs" for k
    using Cons.prems[of "Suc k"] that by simp
  have "matches tau lc rc l c cs = []"
    using h by (simp add: matches_def filter_empty_conv less_Suc_eq_le del: upt_Suc)
  moreover have "rewrite_from tau lc rc (l @ [c]) cs = {cs}"
    using h by (intro Cons.IH) auto
  ultimately show ?case by simp
qed

lemma esimo_needs_s:
  assumes "rctx (fst_concat (closure_from 0 NEMO_NOT_SPACE)
              (fst_union (accep ''esimo'') (accep ''esima''))) r"
  shows "CHR ''s'' \<in> set r"
proof -
  from assms obtain k x where "x \<in> fst_concat (closure_from 0 NEMO_NOT_SPACE)
              (fst_union (accep ''esimo'') (accep ''esima'')) (take k r)"
    unfolding rctx_def by blast
  then obtain u v where uv: "take k r = u @ v" "v = ''esimo'' \<or> v = ''esima''"
    unfolding fst_concat_iff fst_union_def accep_def by (auto split: if_splits)
  then have "CHR ''s'' \<in> set (take k r)" by auto
  then show ?thesis by (rule in_set_takeD)
qed

lemma remove_accents_inert:
  assumes "CHR ''s'' \<notin> set w"
  shows "remove_accents accents w = {w}"
  unfolding remove_accents_def cdrewrite_def
proof (rule rewrite_from_no_right)
  fix k
  show "\<not> rctx (fst_concat (closure_from 0 NEMO_NOT_SPACE)
              (fst_union (accep ''esimo'') (accep ''esima''))) (drop k w)"
    using esimo_needs_s[of "drop k w"] assms by (meson in_set_dropD)
qed

lemma fraction_with_one_other:
  assumes "n \<noteq> ''un''" "CHR 0x22 \<notin> set n"
  shows \<open>pre (fraction_with_one accents) (''numerator: "'' @ n @ ''" '' @ r) = {}\<close>
  unfolding fraction_with_one_def pre_compose fraction_with_one_0_def fst_concat_assoc
    pre_concat[of numerator_one] numerator_one_other[OF assms]
  by simp

lemma fraction_with_one_fem_other:
  assumes "n \<noteq> ''un''" "CHR 0x22 \<notin> set n"
  shows \<open>pre (fraction_with_one_fem accents) (''numerator: "'' @ n @ ''" '' @ r) = {}\<close>
  unfolding fraction_with_one_fem_def pre_union fraction_with_one_other[OF assms] fst_concat_assoc
    pre_concat[of "pynutil_delete numerator_one"]
  unfolding pynutil_delete_def pre_cross numerator_one_other[OF assms]
  by simp

lemma fraction_default_other:
  assumes "n \<noteq> ''un''" "CHR 0x22 \<notin> set n"
    and "CHR 0x22 \<notin> set d" "feat = ''ordinal'' \<or> feat = ''add_root''"
  shows \<open>pre (fraction_default accents)
      (''numerator: "'' @ n @ ''" '' @
        (''denominator: "'' @ d @ ''" morphosyntactic_features: "'' @ feat @ ''"'' @ [])) = {}\<close>
  unfolding fraction_default_def fst_concat_assoc pre_concat[of numerator]
    numerator_field[OF assms(1,2)] pbind_single space_then_den pre_compose
    denominator_plural_token(1)[OF assms(3,4)]
  by simp

lemma fraction_default_fem_other:
  assumes "n \<noteq> ''un''" "CHR 0x22 \<notin> set n"
    and "CHR 0x22 \<notin> set d" "feat = ''ordinal'' \<or> feat = ''add_root''"
  shows \<open>pre (fraction_default_fem gender accents)
      (''numerator: "'' @ n @ ''" '' @
        (''denominator: "'' @ d @ ''" morphosyntactic_features: "'' @ feat @ ''"'' @ [])) = {}\<close>
proof -
  have 1: \<open>pre (compose numerator gender) (''numerator: "'' @ n @ ''" '' @ v)
      = (\<lambda>a. (a, v)) ` gender n\<close> for v
    unfolding pre_compose numerator_field[OF assms(1,2)] by auto
  show ?thesis
    unfolding fraction_default_fem_def pre_union fraction_default_other[OF assms]
      fst_concat_assoc shift_cardinal_gender_def pre_concat[of "compose numerator gender"] 1
      pbind_image space_then_den
    unfolding pre_compose denominator_plural_token(1)[OF assms(3,4)]
    by simp
qed

lemma graph_other_token:
  assumes "n \<noteq> ''un''" "CHR 0x22 \<notin> set n"
    and "CHR 0x22 \<notin> set d" "feat = ''ordinal'' \<or> feat = ''add_root''"
  shows \<open>FractionFst_graph apocope gender accents
      (''numerator: "'' @ n @ ''" denominator: "'' @ d @ ''" morphosyntactic_features: "''
         @ feat @ ''"'') = {}\<close>
proof -
  let ?D = \<open>''denominator: "'' @ d @ ''" morphosyntactic_features: "'' @ feat @ ''"''\<close>
  let ?T = \<open>''numerator: "'' @ (n @ ''" '' @ ?D)\<close>
  have T: \<open>?T = ''numerator: "'' @ n @ ''" '' @
         (''denominator: "'' @ d @ ''" morphosyntactic_features: "'' @ feat @ ''"'' @ [])\<close>
    by simp
  have m: "pre (graph_masc apocope accents) ?T = pre (fraction apocope accents) ?T"
    unfolding graph_masc_def by (rule integer_part_skipped) (rule integer_not_numerator)
  have f: "pre (graph_fem apocope gender accents) ?T = pre (fraction_fem apocope gender accents) ?T"
    unfolding graph_fem_def by (rule integer_part_skipped) (rule integer_fem_not_numerator)
  have 1: "pre (fraction_with_one accents) ?T = {}" "pre (fraction_with_one_fem accents) ?T = {}"
    by (rule fraction_with_one_other[OF assms(1,2)], rule fraction_with_one_fem_other[OF assms(1,2)])
  have 2: "pre (fraction_default accents) ?T = {}" "pre (fraction_default_fem gender accents) ?T = {}"
    unfolding T
    by (rule fraction_default_other[OF assms], rule fraction_default_fem_other[OF assms])
  have 3: "{a. (a, []) \<in> pre (fraction_with_cardinal apocope) ?T} = {}"
    by (rule fraction_with_cardinal_features[OF assms(2,3)])
  have "graph_masc apocope accents ?T = {}"
    by (subst out_pre, unfold m fraction_def pre_union 1 2) (use 3 in simp)
  moreover have "graph_fem apocope gender accents ?T = {}"
    by (subst out_pre, unfold f fraction_fem_def pre_union 1 2) (use 3 in simp)
  ultimately have "FractionFst_graph apocope gender accents ?T = {}"
    by (simp add: FractionFst_graph_def fst_union_def)
  then show ?thesis by simp
qed

lemma rctx_char: "rctx (difference (char_class NEMO_CHAR) (accep ''parte'')) r \<longleftrightarrow> r \<noteq> []"
proof (cases r)
  case Nil
  then show ?thesis by (simp add: rctx_def difference_def char_class_def)
next
  case (Cons c cs)
  have "difference (char_class NEMO_CHAR) (accep ''parte'') (take 1 r) \<noteq> {}"
    using Cons by (simp add: difference_def char_class_def accep_def NEMO_CHAR_def)
  moreover have "1 \<in> set [0..<Suc (length r)]" using Cons by (simp del: upt_Suc)
  ultimately show ?thesis unfolding rctx_def using Cons by blast
qed




lemma dib_not_blank: "\<not> NEMO_WHITE_SPACE c \<Longrightarrow> delete_inner_blanks (c # cs) = c # delete_inner_blanks cs"
  by (cases cs) simp_all

lemma dib_skip:
  "list_all NEMO_WHITE_SPACE u \<Longrightarrow> v \<noteq> [] \<Longrightarrow> delete_inner_blanks (u @ v) = delete_inner_blanks v"
proof (induction u)
  case Nil
  then show ?case by simp
next
  case (Cons c u)
  then obtain d ds where "u @ v = d # ds" by (cases "u @ v") auto
  then show ?case using Cons by simp
qed

lemma delete_space_iff: "delete_space w \<noteq> {} \<longleftrightarrow> list_all NEMO_WHITE_SPACE w"
  by (simp add: delete_space_def pynutil_delete_def cross_def closure_from_def)

lemma delete_space_out: "x \<in> delete_space w \<Longrightarrow> x = []"
  by (simp add: delete_space_def pynutil_delete_def cross_def split: if_splits)

lemma delete_blanks_rule:
  "rewrite_from delete_space (lctx (accep []))
      (rctx (difference (char_class NEMO_CHAR) (accep ''parte''))) l w
   = {delete_inner_blanks w}"
proof (induction w arbitrary: l rule: length_induct)
  case (1 w)
  let ?rc = "rctx (difference (char_class NEMO_CHAR) (accep ''parte''))"
  let ?lc = "lctx (accep [])"
  show ?case
  proof (cases w)
    case Nil
    then show ?thesis by simp
  next
    case (Cons c cs)
    have m: "set (matches delete_space ?lc ?rc l c cs)
        = {k. k < length cs \<and> NEMO_WHITE_SPACE c \<and> list_all NEMO_WHITE_SPACE (take k cs)}"
      by (auto simp: matches_def rctx_char delete_space_iff any_l)
    show ?thesis
    proof (cases "matches delete_space ?lc ?rc l c cs = []")
      case True
      then have e: "{k. k < length cs \<and> NEMO_WHITE_SPACE c \<and> list_all NEMO_WHITE_SPACE (take k cs)} = {}"
        using m by simp
      have "delete_inner_blanks (c # cs) = c # delete_inner_blanks cs"
      proof (cases cs)
        case Nil
        then show ?thesis by simp
      next
        case (Cons d ds)
        then have "0 < length cs" by simp
        then have "\<not> NEMO_WHITE_SPACE c" using e by force
        then show ?thesis by (rule dib_not_blank)
      qed
      moreover have "length cs < length w" using Cons by simp
      then have "rewrite_from delete_space ?lc ?rc (l @ [c]) cs = {delete_inner_blanks cs}"
        using 1 by blast
      ultimately show ?thesis using True Cons by simp
    next
      case False
      have each: "(\<Union>x\<in>delete_space (c # take k cs).
              (@) x ` rewrite_from delete_space ?lc ?rc (l @ c # take k cs) (drop k cs))
            = {delete_inner_blanks (c # cs)}"
        if "k \<in> set (matches delete_space ?lc ?rc l c cs)" for k
      proof -
        from that have k: "k < length cs" "NEMO_WHITE_SPACE c" "list_all NEMO_WHITE_SPACE (take k cs)"
          using m by auto
        have "delete_space (c # take k cs) = {[]}"
          using k delete_space_iff[of "c # take k cs"] delete_space_out by fastforce
        moreover have "length (drop k cs) < length w" using Cons by simp
        then have "rewrite_from delete_space ?lc ?rc (l @ c # take k cs) (drop k cs)
            = {delete_inner_blanks (drop k cs)}"
          using 1 by blast
        moreover have "delete_inner_blanks (drop k cs) = delete_inner_blanks (c # cs)"
          using dib_skip[of "c # take k cs" "drop k cs"] k by simp
        ultimately show ?thesis by simp
      qed
      have "set (matches delete_space ?lc ?rc l c cs) \<noteq> {}" using False by simp
      then have "(\<Union>k\<in>set (matches delete_space ?lc ?rc l c cs).
          \<Union>x\<in>delete_space (c # take k cs).
              (@) x ` rewrite_from delete_space ?lc ?rc (l @ c # take k cs) (drop k cs))
          = {delete_inner_blanks (c # cs)}"
        using each by auto
      then show ?thesis using False Cons by simp
    qed
  qed
qed


lemma merge_eq:
  "merge w = (\<Union>y\<in>cdrewrite (cross (accep '' e '') ''i'') (lctx (accep [])) (rctx (accep [])) w.
                {delete_inner_blanks y})"
  unfolding merge_def compose_def cdrewrite_def[of delete_space] delete_blanks_rule ..





lemma merge_parte: "merge ''venti e una parte'' = {''ventiiunaparte''}"
  unfolding merge_eq
  by (simp add: cdrewrite_def matches_def cross_def accep_def any_l any_r NEMO_WHITE_SPACE_def)

lemma dd_parte: "delete_duplicates ''ventiiunaparte'' = {''ventiiunaparte''}"
  by (simp add: delete_duplicates_def cdrewrite_def matches_def string_map_def any_l any_r)

lemma merge_aaa: "merge ''tre e aaa'' = {''treiaaa''}"
  unfolding merge_eq
  by (simp add: cdrewrite_def matches_def cross_def accep_def any_l any_r NEMO_WHITE_SPACE_def)

lemma dd_aaa: "delete_duplicates ''treiaaa'' = {''treiaa''}"
  by (simp add: delete_duplicates_def cdrewrite_def matches_def string_map_def any_l any_r)


section \<open>The claims about the fraction verbalizer\<close>



text \<open>
  Claim C4 (the code departs from it). \<open>plural\<close> deletes an "o" and inserts an "i", but
  \<open>denominator_plural\<close> puts it behind \<open>denominator_singular\<close>, which has already read
  the closing quote and the feature tag of the denominator field: the "o" it deletes has
  to stand behind the tag, not at the end of the denominator. So a denominator that the
  singular graph accepts has no plural form at all (with an "o" appended behind the tag,
  the plural graph returns the whole denominator followed by "i"), and a fraction token
  whose numerator is not "un" and whose denominator is tagged \<^verbatim>\<open>ordinal\<close> or
  \<^verbatim>\<open>add_root\<close> has no output: the plural branch is never the one that produces it.
\<close>

theorem plural_branch_has_no_output:
  assumes "n \<noteq> ''un''" "CHR 0x22 \<notin> set n"
    and "CHR 0x22 \<notin> set d" "feat = ''ordinal'' \<or> feat = ''add_root''"
  shows \<open>FractionFst_graph apocope gender accents
           (''numerator: "'' @ n @ ''" denominator: "'' @ d @ ''" morphosyntactic_features: "''
              @ feat @ ''"'') = {}
       \<and> denominator_singular
           (''denominator: "'' @ d @ ''" morphosyntactic_features: "'' @ feat @ ''"'') = {d}
       \<and> denominator_plural
           (''denominator: "'' @ d @ ''" morphosyntactic_features: "'' @ feat @ ''"'') = {}
       \<and> denominator_plural
           (''denominator: "'' @ d @ ''" morphosyntactic_features: "'' @ feat @ ''"o'')
         = {d @ ''i''}\<close>
proof -
  have s: \<open>denominator_singular
      (''denominator: "'' @ d @ ''" morphosyntactic_features: "'' @ feat @ ''"'' @ []) = {d}\<close>
    by (subst out_pre) (simp only: denominator_singular_field[OF assms(3,4)], simp)
  have p0: \<open>denominator_plural
      (''denominator: "'' @ d @ ''" morphosyntactic_features: "'' @ feat @ ''"'' @ []) = {}\<close>
    by (subst out_pre) (simp only: denominator_plural_token(1)[OF assms(3,4)], simp)
  have p1: \<open>denominator_plural
      (''denominator: "'' @ d @ ''" morphosyntactic_features: "'' @ feat @ ''"'' @ ''o'')
       = {d @ ''i''}\<close>
    by (subst out_pre) (simp only: denominator_plural_token(2)[OF assms(3,4)], simp)
  from s p0 p1 graph_other_token[OF assms, of apocope gender accents] show ?thesis by simp
qed

theorem plural_branch_has_no_output_witness:
  \<open>FractionFst_graph (\<lambda>w. {w}) (\<lambda>w. {w}) (\<lambda>w. {})
       ''numerator: "tre" denominator: "quinto" morphosyntactic_features: "ordinal"'' = {}
   \<and> denominator_singular ''denominator: "quinto" morphosyntactic_features: "ordinal"''
       = {''quinto''}
   \<and> denominator_plural ''denominator: "quinto" morphosyntactic_features: "ordinal"'' = {}
   \<and> denominator_plural ''denominator: "quinto" morphosyntactic_features: "ordinal"o''
       = {''quintoi''}\<close>
  using plural_branch_has_no_output[of "''tre''" "''quinto''" "''ordinal''"
      "\<lambda>w. {w}" "\<lambda>w. {w}" "\<lambda>w. {}"]
  by simp

text \<open>
  Claim C5 (the code departs from it). The right context of the blank-deleting rule of
  \<open>merge\<close> is \<^verbatim>\<open>difference(NEMO_CHAR, "parte")\<close>: the single characters that are not
  the five-letter string "parte", which is every character. So the rule deletes every
  blank that has a character behind it, the one before "parte" too: "venti e una parte"
  becomes "ventiiunaparte". The doubled-vowel rule makes one pass from the left, so of
  three equal vowels two remain: "tre e aaa" becomes "treiaa".
\<close>

theorem merge_deletes_blank_before_parte:
  "cdrewrite delete_space (lctx (accep []))
      (rctx (difference (char_class NEMO_CHAR) (accep ''parte''))) w = {delete_inner_blanks w}
   \<and> merge_into_single_word accents ''venti e una parte'' = {''ventiiunaparte''}
   \<and> merge_into_single_word accents ''tre e aaa'' = {''treiaa''}"
proof (intro conjI)
  show "cdrewrite delete_space (lctx (accep []))
      (rctx (difference (char_class NEMO_CHAR) (accep ''parte''))) w = {delete_inner_blanks w}"
    unfolding cdrewrite_def by (rule delete_blanks_rule)
  show "merge_into_single_word accents ''venti e una parte'' = {''ventiiunaparte''}"
    by (simp add: merge_into_single_word_def compose_def merge_parte dd_parte remove_accents_inert)
  show "merge_into_single_word accents ''tre e aaa'' = {''treiaa''}"
    by (simp add: merge_into_single_word_def compose_def merge_aaa dd_aaa remove_accents_inert)
qed

section \<open>The fraction verbalizer: the numerator before "fratto"\<close>

lemma scan_keeps_last:
  assumes "\<not> rc []" "x \<in> rewrite_from tau lc rc l r" "r \<noteq> []"
  shows "x \<noteq> [] \<and> last x = last r"
  using assms(2,3)
proof (induction r arbitrary: l x rule: length_induct)
  case (1 r)
  then obtain c cs where r: "r = c # cs" by (cases r) auto
  have IH: "x \<noteq> [] \<and> last x = last ys"
    if "length ys < length r" "x \<in> rewrite_from tau lc rc l ys" "ys \<noteq> []" for ys l x
    using 1(1) that by blast
  show ?case
  proof (cases "matches tau lc rc l c cs = []")
    case True
    then obtain y where y: "x = c # y" "y \<in> rewrite_from tau lc rc (l @ [c]) cs"
      using 1(2) r by auto
    show ?thesis
    proof (cases cs)
      case Nil
      then show ?thesis using y r by simp
    next
      case (Cons d ds)
      have "y \<noteq> [] \<and> last y = last cs"
        by (rule IH[OF _ y(2)]) (simp_all add: r Cons)
      then show ?thesis using y(1) r Cons by simp
    qed
  next
    case False
    then obtain k t y where k: "k \<in> set (matches tau lc rc l c cs)" "t \<in> tau (c # take k cs)"
        "y \<in> rewrite_from tau lc rc (l @ c # take k cs) (drop k cs)" "x = t @ y"
      using 1(2) r by auto
    from k(1) have "rc (drop k cs)" by (simp add: matches_def del: upt_Suc)
    then have ne: "drop k cs \<noteq> []" using assms(1) by auto
    have "y \<noteq> [] \<and> last y = last (drop k cs)"
      by (rule IH[OF _ k(3) ne]) (simp add: r)
    moreover have "last (drop k cs) = last r" using ne r by (auto simp: last_drop)
    ultimately show ?thesis using k(4) by simp
  qed
qed

lemma apocope_before_keeps_last:
  assumes "a \<in> apocope_before spellings continuation n" "n \<noteq> []"
  shows "a \<noteq> [] \<and> last a = last n"
  using assms unfolding apocope_before_def cdrewrite_def
  by (intro scan_keeps_last[where rc="\<lambda>r. r \<noteq> [] \<and> continuation r"]) auto

lemma denominator_singular_bare:
  assumes "CHR 0x22 \<notin> set d"
  shows \<open>pre denominator_singular (''denominator: "'' @ d @ ''"'' @ []) = {}\<close>
  using assms unfolding denominator_singular_def denominator_add_stem_def denominator_ordinal_def
    pynutil_delete_def pre_union
  by (simp add: pre_lit_concat pre_closure_lit)

lemma denominator_plural_bare:
  assumes "CHR 0x22 \<notin> set d"
  shows \<open>pre denominator_plural (''denominator: "'' @ d @ ''"'' @ []) = {}\<close>
  unfolding denominator_plural_def pre_concat denominator_singular_bare[OF assms] by simp

lemma numerator_one_reads:
  assumes "CHR 0x22 \<notin> set n"
  shows \<open>pre numerator_one (''numerator: "'' @ n @ ''" '' @ r) = (if n = ''un'' then {(n, r)} else {})\<close>
proof (cases "n = ''un''")
  case True
  show ?thesis unfolding True numerator_one_field by simp
next
  case False
  show ?thesis unfolding numerator_one_other[OF False assms] using False by simp
qed

lemma numerator_reads:
  assumes "CHR 0x22 \<notin> set n"
  shows \<open>pre numerator (''numerator: "'' @ n @ ''" '' @ r) = (if n = ''un'' then {} else {(n, r)})\<close>
proof (cases "n = ''un''")
  case True
  show ?thesis unfolding True numerator_un by simp
next
  case False
  show ?thesis unfolding numerator_field[OF False assms] using False by simp
qed

lemma pbind_if: "pbind (if c then A else B) F = (if c then pbind A F else pbind B F)"
  by simp

lemma fraction_with_one_bare:
  assumes "CHR 0x22 \<notin> set n" "CHR 0x22 \<notin> set d"
  shows \<open>pre (fraction_with_one accents)
      (''numerator: "'' @ n @ ''" '' @ (''denominator: "'' @ d @ ''"'' @ [])) = {}\<close>
  unfolding fraction_with_one_def pre_compose fraction_with_one_0_def fst_concat_assoc
    pre_concat[of numerator_one] numerator_one_reads[OF assms(1)] pbind_if pbind_single
    pbind_empty space_then_den denominator_singular_bare[OF assms(2)]
  by simp

lemma fraction_with_one_fem_bare:
  assumes "CHR 0x22 \<notin> set n" "CHR 0x22 \<notin> set d"
  shows \<open>pre (fraction_with_one_fem accents)
      (''numerator: "'' @ n @ ''" '' @ (''denominator: "'' @ d @ ''"'' @ [])) = {}\<close>
proof -
  have 2: \<open>pre (fst_concat delete_space g) (''denominator: "'' @ v) = pre g (''denominator: "'' @ v)\<close>
    for g v
    by (simp add: pre_delete_space_cons)
  have 1: \<open>pre (cross numerator_one []) (''numerator: "'' @ n @ ''" '' @ v)
      = (if n = ''un'' then {([], v)} else {})\<close> for v
    unfolding pre_cross numerator_one_reads[OF assms(1)] by simp
  show ?thesis
    unfolding fraction_with_one_fem_def pre_union fraction_with_one_bare[OF assms] fst_concat_assoc
      pynutil_delete_def pre_concat[of "cross numerator_one []"] 1 pbind_if pbind_single
      pbind_empty 2
    unfolding pre_compose denominator_singular_bare[OF assms(2)]
    by simp
qed

lemma fraction_default_bare:
  assumes "CHR 0x22 \<notin> set n" "CHR 0x22 \<notin> set d"
  shows \<open>pre (fraction_default accents)
      (''numerator: "'' @ n @ ''" '' @ (''denominator: "'' @ d @ ''"'' @ [])) = {}\<close>
  unfolding fraction_default_def fst_concat_assoc pre_concat[of numerator]
    numerator_reads[OF assms(1)] pbind_if pbind_single pbind_empty space_then_den
  unfolding pre_compose denominator_plural_bare[OF assms(2)]
  by simp

lemma fraction_default_fem_bare:
  assumes "CHR 0x22 \<notin> set n" "CHR 0x22 \<notin> set d"
  shows \<open>pre (fraction_default_fem gender accents)
      (''numerator: "'' @ n @ ''" '' @ (''denominator: "'' @ d @ ''"'' @ [])) = {}\<close>
proof -
  have 1: \<open>pre (compose numerator gender) (''numerator: "'' @ n @ ''" '' @ v)
      = (\<lambda>a. (a, v)) ` (if n = ''un'' then {} else gender n)\<close> for v
    unfolding pre_compose numerator_reads[OF assms(1)] by auto
  show ?thesis
    unfolding fraction_default_fem_def pre_union fraction_default_bare[OF assms]
      fst_concat_assoc shift_cardinal_gender_def pre_concat[of "compose numerator gender"] 1
      pbind_image space_then_den
    unfolding pre_compose denominator_plural_bare[OF assms(2)]
    by simp
qed

lemma graph_bare_token:
  assumes "CHR 0x22 \<notin> set n" "CHR 0x22 \<notin> set d"
  shows \<open>FractionFst_graph apocope gender accents
      (''numerator: "'' @ n @ ''" denominator: "'' @ d @ ''"'')
     = (\<lambda>(a, b). a @ '' fratto '' @ b) ` (apocope n \<times> apocope d)\<close>
proof -
  let ?T = \<open>''numerator: "'' @ (n @ ''" '' @ (''denominator: "'' @ d @ ''"''))\<close>
  have T: \<open>?T = ''numerator: "'' @ n @ ''" '' @ (''denominator: "'' @ d @ ''"'' @ [])\<close>
    by simp
  have m: "pre (graph_masc apocope accents) ?T = pre (fraction apocope accents) ?T"
    unfolding graph_masc_def by (rule integer_part_skipped) (rule integer_not_numerator)
  have f: "pre (graph_fem apocope gender accents) ?T = pre (fraction_fem apocope gender accents) ?T"
    unfolding graph_fem_def by (rule integer_part_skipped) (rule integer_fem_not_numerator)
  have 1: "pre (fraction_with_one accents) ?T = {}" "pre (fraction_with_one_fem accents) ?T = {}"
    unfolding T
    by (rule fraction_with_one_bare[OF assms], rule fraction_with_one_fem_bare[OF assms])
  have 2: "pre (fraction_default accents) ?T = {}" "pre (fraction_default_fem gender accents) ?T = {}"
    unfolding T
    by (rule fraction_default_bare[OF assms], rule fraction_default_fem_bare[OF assms])
  have 3: "{a. (a, []) \<in> pre (fraction_with_cardinal apocope) ?T}
      = (\<lambda>(a, b). a @ '' fratto '' @ b) ` (apocope n \<times> apocope d)"
    unfolding T fraction_with_cardinal_token[OF assms] by force
  have "graph_masc apocope accents ?T = (\<lambda>(a, b). a @ '' fratto '' @ b) ` (apocope n \<times> apocope d)"
    by (subst out_pre, unfold m fraction_def pre_union 1 2) (use 3 in simp)
  moreover have "graph_fem apocope gender accents ?T
      = (\<lambda>(a, b). a @ '' fratto '' @ b) ` (apocope n \<times> apocope d)"
    by (subst out_pre, unfold f fraction_fem_def pre_union 1 2) (use 3 in simp)
  ultimately have "FractionFst_graph apocope gender accents ?T
      = (\<lambda>(a, b). a @ '' fratto '' @ b) ` (apocope n \<times> apocope d)"
    by (simp add: FractionFst_graph_def fst_union_def)
  then show ?thesis by simp
qed


lemma scan_nonempty: "rewrite_from tau lc rc l r \<noteq> {}"
proof (induction r arbitrary: l rule: length_induct)
  case (1 r)
  show ?case
  proof (cases r)
    case Nil
    then show ?thesis by simp
  next
    case (Cons c cs)
    have IH: "rewrite_from tau lc rc l' ys \<noteq> {}" if "length ys < length r" for ys l'
      using 1 that by blast
    show ?thesis
    proof (cases "matches tau lc rc l c cs = []")
      case True
      have "rewrite_from tau lc rc (l @ [c]) cs \<noteq> {}" by (rule IH) (simp add: Cons)
      then show ?thesis using True Cons by simp
    next
      case False
      then obtain k where k: "k \<in> set (matches tau lc rc l c cs)"
        by (meson last_in_set)
      then have "tau (c # take k cs) \<noteq> {}" by (simp add: matches_def del: upt_Suc)
      then obtain t where t: "t \<in> tau (c # take k cs)" by blast
      have "rewrite_from tau lc rc (l @ c # take k cs) (drop k cs) \<noteq> {}"
        by (rule IH) (simp add: Cons)
      then obtain y where "y \<in> rewrite_from tau lc rc (l @ c # take k cs) (drop k cs)" by blast
      then have "t @ y \<in> rewrite_from tau lc rc l (c # cs)"
        using False k t by auto
      then show ?thesis using Cons by blast
    qed
  qed
qed

text \<open>
  Claim C8. fraction.py applies \<open>strip_cardinal_apocope\<close> to the numerator in one branch
  only, the one that reads a bare cardinal denominator and inserts "fratto"; a token with
  such a denominator is verbalized to a rendering of the numerator, " fratto " and a
  rendering of the denominator, both by the apocope rewrite. With the rewrite as the spec
  describes it (it trims a spelling only where something follows), the numerator has a
  rendering and every rendering ends in the numerator's own last character: its final
  vowel is kept.
\<close>

theorem numerator_keeps_final_vowel:
  assumes "n \<noteq> []" "CHR 0x22 \<notin> set n" "CHR 0x22 \<notin> set d"
  shows \<open>FractionFst_graph (apocope_before spellings continuation) gender accents
           (''numerator: "'' @ n @ ''" denominator: "'' @ d @ ''"'')
         = (\<lambda>(a, b). a @ '' fratto '' @ b)
             ` (apocope_before spellings continuation n \<times> apocope_before spellings continuation d)
       \<and> apocope_before spellings continuation n \<noteq> {}
       \<and> (\<forall>a\<in>apocope_before spellings continuation n. a \<noteq> [] \<and> last a = last n)\<close>
proof (intro conjI ballI)
  show \<open>FractionFst_graph (apocope_before spellings continuation) gender accents
           (''numerator: "'' @ n @ ''" denominator: "'' @ d @ ''"'')
         = (\<lambda>(a, b). a @ '' fratto '' @ b)
             ` (apocope_before spellings continuation n \<times> apocope_before spellings continuation d)\<close>
    by (rule graph_bare_token[OF assms(2,3)])
  show "apocope_before spellings continuation n \<noteq> {}"
    unfolding apocope_before_def cdrewrite_def by (rule scan_nonempty)
  fix a assume a: "a \<in> apocope_before spellings continuation n"
  show "a \<noteq> []" "last a = last n"
    using apocope_before_keeps_last[OF a assms(1)] by simp_all
qed

lemma apocope_ventuno:
  "apocope_before [(''uno'', ''un'')] (\<lambda>r. True) ''ventuno'' = {''ventuno''}"
  "apocope_before [(''uno'', ''un'')] (\<lambda>r. True) ''sette'' = {''sette''}"
  "apocope_before [(''uno'', ''un'')] (\<lambda>r. True) ''ventuno mila'' = {''ventun mila''}"
  by (simp_all add: apocope_before_def cdrewrite_def matches_def string_map_def any_l)

theorem numerator_keeps_final_vowel_witness:
  \<open>FractionFst_graph (apocope_before [(''uno'', ''un'')] (\<lambda>r. True)) (\<lambda>w. {w}) (\<lambda>w. {})
       ''numerator: "ventuno" denominator: "sette"'' = {''ventuno fratto sette''}
   \<and> apocope_before [(''uno'', ''un'')] (\<lambda>r. True) ''ventuno mila'' = {''ventun mila''}\<close>
  using numerator_keeps_final_vowel[of "''ventuno''" "''sette''" "[(''uno'', ''un'')]" "\<lambda>r. True"
      "\<lambda>w. {w}" "\<lambda>w. {}"]
  by (simp add: apocope_ventuno)


section \<open>The ordinal tagger: the thousands and the elision before "ottavo"\<close>

declare str.simps [simp del]

lemma rctx_accep: "rctx (accep s) r \<longleftrightarrow> take (length s) r = s"
proof
  assume "rctx (accep s) r"
  then obtain k where "take k r = s" by (auto simp: rctx_def accep_def split: if_splits)
  then show "take (length s) r = s" by (metis append_eq_conv_conj append_take_drop_id)
next
  assume a: "take (length s) r = s"
  then have "length s \<le> length r" by (metis length_take min.cobounded1 min.commute)
  then have "length s \<in> set [0..<Suc (length r)]" by (simp del: upt_Suc)
  then show "rctx (accep s) r" unfolding rctx_def accep_def using a by force
qed






lemma scan_nonblank_prefix:
  "list_all NEMO_NOT_SPACE a \<Longrightarrow>
     rewrite_from delete_space lc rc l (a @ r) = (@) a ` rewrite_from delete_space lc rc (l @ a) r"
proof (induction a arbitrary: l)
  case Nil
  then show ?case by simp
next
  case (Cons c a)
  from Cons.prems have nb: "\<not> NEMO_WHITE_SPACE c" and a: "list_all NEMO_NOT_SPACE a"
    by (simp_all add: NEMO_NOT_SPACE_def[abs_def])
  have "matches delete_space lc rc l c (a @ r) = []"
    using nb by (simp add: matches_def delete_space_iff filter_empty_conv del: upt_Suc)
  then have "rewrite_from delete_space lc rc l ((c # a) @ r)
      = (#) c ` rewrite_from delete_space lc rc (l @ [c]) (a @ r)"
    by simp
  also have "\<dots> = (#) c ` ((@) a ` rewrite_from delete_space lc rc ((l @ [c]) @ a) r)"
    using Cons.IH[OF a] by simp
  also have "\<dots> = (@) (c # a) ` rewrite_from delete_space lc rc (l @ c # a) r"
    by (simp add: image_image)
  finally show ?case .
qed

lemma merge_blank_millesimo:
  "rewrite_from delete_space (lctx (accep [])) (rctx (accep ''millesimo'')) l '' millesimo''
     = {''millesimo''}"
  by (simp add: matches_def any_l rctx_accep delete_space_iff NEMO_WHITE_SPACE_def
      delete_space_def pynutil_delete_def cross_def closure_from_def)

lemma merge_as_prefix_one_word:
  assumes "list_all NEMO_NOT_SPACE a"
  shows "merge_as_prefix (a @ '' millesimo'') = {a @ ''millesimo''}"
  unfolding merge_as_prefix_def cdrewrite_def scan_nonblank_prefix[OF assms] merge_blank_millesimo
  by simp

lemma thousands_iff: "b \<in> thousands v \<longleftrightarrow> v = ''mille'' \<and> b = ''millesimo''"
  by (auto simp: thousands_def cross_def accep_def split: if_splits)

lemma space_iff: "b \<in> NEMO_SPACE v \<longleftrightarrow> v = '' '' \<and> b = '' ''"
  by (auto simp: NEMO_SPACE_def accep_def split: if_splits)

lemma prefix_space_mille:
  "x \<in> fst_concat (fst_concat A NEMO_SPACE) thousands (p @ '' mille'')
     \<longleftrightarrow> (\<exists>a\<in>A p. x = a @ '' millesimo'')"
proof
  assume "x \<in> fst_concat (fst_concat A NEMO_SPACE) thousands (p @ '' mille'')"
  then obtain u v a b where h: "p @ '' mille'' = u @ v" "a \<in> fst_concat A NEMO_SPACE u"
      "b \<in> thousands v" "x = a @ b"
    unfolding fst_concat_iff[of x] by blast
  then have v: "v = ''mille''" "b = ''millesimo''" by (simp_all add: thousands_iff)
  from h(2) obtain u1 u2 a1 a2 where g: "u = u1 @ u2" "a1 \<in> A u1" "a2 \<in> NEMO_SPACE u2" "a = a1 @ a2"
    unfolding fst_concat_iff[of a] by blast
  then have s: "u2 = '' ''" "a2 = '' ''" by (simp_all add: space_iff)
  have "p @ '' mille'' = u1 @ '' mille''" using h(1) v g(1) s by simp
  then have "u1 = p" by simp
  then show "\<exists>a\<in>A p. x = a @ '' millesimo''" using g h v s by auto
next
  assume "\<exists>a\<in>A p. x = a @ '' millesimo''"
  then obtain a where a: "a \<in> A p" "x = a @ '' millesimo''" by blast
  have "a @ '' '' \<in> fst_concat A NEMO_SPACE (p @ '' '')"
    unfolding fst_concat_iff using a(1) by (auto simp: space_iff)
  moreover have "''millesimo'' \<in> thousands ''mille''" by (simp add: thousands_iff)
  ultimately have "(a @ '' '') @ ''millesimo'' \<in>
      fst_concat (fst_concat A NEMO_SPACE) thousands ((p @ '' '') @ ''mille'')"
    unfolding fst_concat_iff[of _ "fst_concat A NEMO_SPACE"] by blast
  then show "x \<in> fst_concat (fst_concat A NEMO_SPACE) thousands (p @ '' mille'')"
    using a(2) by simp
qed

lemma one_to_one_thousand_member:
  assumes "n \<in> set [1..<1000]" "p \<in> cardinal (str n)"
  shows "get_one_to_one_thousand cardinal p = {p}"
  unfolding get_one_to_one_thousand_def using assms by auto


lemma thousands_not_prefixed: "thousands (p @ '' mille'') = {}"
  by (simp add: thousands_def cross_def accep_def)

lemma graph_thousands_2_prefixed:
  assumes "n \<in> set [1..<1000]" "p \<in> cardinal (str n)"
    and "\<forall>a\<in>accent_rewrite p. list_all NEMO_NOT_SPACE a"
  shows "graph_thousands_2 accent_rewrite cardinal (p @ '' mille'')
     = (\<lambda>a. a @ ''millesimo'') ` accent_rewrite p"
proof -
  have O: "get_one_to_one_thousand cardinal p = {p}"
    using assms(1,2) by (rule one_to_one_thousand_member[of n p cardinal])
  have 0: "graph_thousands_0 accent_rewrite cardinal (p @ '' mille'')
      = (\<lambda>a. a @ '' millesimo'') ` accent_rewrite p"
    unfolding graph_thousands_0_def strip_accent_def
    by (rule set_eqI) (auto simp: prefix_space_mille compose_def O)
  have "graph_thousands_1 accent_rewrite cardinal (p @ '' mille'')
      = (\<Union>a\<in>accent_rewrite p. merge_as_prefix (a @ '' millesimo''))"
    unfolding graph_thousands_1_def compose_def 0 by simp
  also have "\<dots> = (\<Union>a\<in>accent_rewrite p. {a @ ''millesimo''})"
    using assms(3) by (simp add: merge_as_prefix_one_word)
  finally show ?thesis
    unfolding graph_thousands_2_def fst_union_def thousands_not_prefixed by auto
qed

lemma word_boundary_branch:
  assumes "n \<in> set [1..<1000]" "p \<in> cardinal (str n)"
  shows "fst_concat
           (fst_concat (compose (get_one_to_one_thousand cardinal) (graph_hundred_component L))
              NEMO_SPACE)
           thousands (p @ '' mille'')
     = (\<lambda>h. h @ '' millesimo'') ` graph_hundred_component L p"
  using one_to_one_thousand_member[of n p cardinal] assms
  by (intro set_eqI) (auto simp: prefix_space_mille compose_def)

text \<open>
  Claim C6, as amended. For a cardinal text \<open>p\<close> of a number from 1 to 999 whose
  accent-stripped forms are single words, the deterministic thousands graph sends
  \<open>p\<close>, a blank and "mille" to exactly the accent-stripped forms of \<open>p\<close> with "millesimo"
  appended and no blank between. The non-deterministic graph adds a branch and keeps the
  first: the added outputs are the renderings of \<open>p\<close> by the hundred component (the
  ordinal spelling of the prefix, not its cardinal text), a blank and "millesimo".
\<close>

theorem thousand_ordinal_formation:
  assumes "n \<in> set [1..<1000]" "p \<in> cardinal (str n)"
    and "\<forall>a\<in>accent_rewrite p. list_all NEMO_NOT_SPACE a"
  shows "graph_thousands_3 True L accent_rewrite cardinal (p @ '' mille'')
           = (\<lambda>a. a @ ''millesimo'') ` accent_rewrite p
       \<and> graph_thousands_3 False L accent_rewrite cardinal (p @ '' mille'')
           = (\<lambda>a. a @ ''millesimo'') ` accent_rewrite p
             \<union> (\<lambda>h. h @ '' millesimo'') ` graph_hundred_component L p"
  unfolding graph_thousands_3_def fst_union_def
  using graph_thousands_2_prefixed[of n p cardinal accent_rewrite]
    word_boundary_branch[of n p cardinal L] assms
  by simp

lemma str_2: "str 2 = ''2''"
  by code_simp

lemma hundred_component_due:
  "graph_hundred_component
     \<lparr>graph_digit = string_map [(''due'', ''secondo'')], graph_teens = string_map [],
      graph_ties = string_map [], graph_twenties = string_map [],
      graph_hundreds = string_map []\<rparr> ''due'' = {''secondo''}"
  by (simp add: graph_hundred_component_def graph_tens_component_def fst_union_def
      fst_concat_def string_map_def)

theorem thousand_ordinal_formation_witness:
  "graph_thousands_3 True
     \<lparr>graph_digit = string_map [(''due'', ''secondo'')], graph_teens = string_map [],
      graph_ties = string_map [], graph_twenties = string_map [],
      graph_hundreds = string_map []\<rparr>
     (string_map [(''due'', ''due'')]) (string_map [(''2'', ''due'')]) ''due mille''
     = {''duemillesimo''}
   \<and> graph_thousands_3 False
     \<lparr>graph_digit = string_map [(''due'', ''secondo'')], graph_teens = string_map [],
      graph_ties = string_map [], graph_twenties = string_map [],
      graph_hundreds = string_map []\<rparr>
     (string_map [(''due'', ''due'')]) (string_map [(''2'', ''due'')]) ''due mille''
     = {''duemillesimo'', ''secondo millesimo''}"
  using thousand_ordinal_formation[of 2 "''due''" "string_map [(''2'', ''due'')]"
      "string_map [(''due'', ''due'')]"
      "\<lparr>graph_digit = string_map [(''due'', ''secondo'')], graph_teens = string_map [],
      graph_ties = string_map [], graph_twenties = string_map [],
      graph_hundreds = string_map []\<rparr>"]
  by (simp add: str_2 string_map_def NEMO_NOT_SPACE_def NEMO_WHITE_SPACE_def hundred_component_due
      insert_commute)

text \<open>
  Claim C6 as stated fails in its last part: with the cardinal grammar that reads "2" as
  "due" and a digit table that gives "due" the ordinal "secondo", the spelling that
  keeps the cardinal prefix and a blank, "due millesimo", is no output of the
  non-deterministic thousands graph; the added branch yields "secondo millesimo".
\<close>

theorem cardinal_prefix_with_blank_counterexample:
  "''due millesimo'' \<notin> graph_thousands_3 False
     \<lparr>graph_digit = string_map [(''due'', ''secondo'')], graph_teens = string_map [],
      graph_ties = string_map [], graph_twenties = string_map [],
      graph_hundreds = string_map []\<rparr>
     (string_map [(''due'', ''due'')]) (string_map [(''2'', ''due'')]) ''due mille''"
proof -
  have "graph_thousands_3 False
     \<lparr>graph_digit = string_map [(''due'', ''secondo'')], graph_teens = string_map [],
      graph_ties = string_map [], graph_twenties = string_map [],
      graph_hundreds = string_map []\<rparr>
     (string_map [(''due'', ''due'')]) (string_map [(''2'', ''due'')]) ''due mille''
     = {''duemillesimo'', ''secondo millesimo''}"
    using graph_thousands_2_prefixed[of 2 "''due''" "string_map [(''2'', ''due'')]"
        "string_map [(''due'', ''due'')]"]
      word_boundary_branch[of 2 "''due''" "string_map [(''2'', ''due'')]"
        "\<lparr>graph_digit = string_map [(''due'', ''secondo'')], graph_teens = string_map [],
          graph_ties = string_map [], graph_twenties = string_map [],
          graph_hundreds = string_map []\<rparr>"]
    by (simp add: graph_thousands_3_def fst_union_def str_2 string_map_def NEMO_NOT_SPACE_def
        NEMO_WHITE_SPACE_def hundred_component_due insert_commute)
  then show ?thesis by simp
qed



end
